theory Spec2Isabelle
  imports Main "HOL-Library.Sublist"
begin

section \<open>The Ki node tree of goki/ki (node.go)\<close>

text \<open>
  A shallow embedding of \<^verbatim>\<open>vendor/github.com/goki/ki/node.go\<close>. Nodes live in an
  explicit store, since the code links them by pointers in both directions (\<^verbatim>\<open>Par\<close>,
  \<^verbatim>\<open>Kids\<close>, \<^verbatim>\<open>Ths\<close>). Go strings are byte sequences, modelled as \<^typ>\<open>string\<close>.
  A call that does not return (a panic on a nil receiver, or a recursion that never ends)
  has the value \<open>None\<close>.
\<close>

subsection \<open>The string functions of the Go library that node.go calls\<close>

text \<open>\<^verbatim>\<open>strings.Replace(s, old, new, -1)\<close> for a non-empty \<^verbatim>\<open>old\<close>: every
  non-overlapping occurrence, leftmost first. The counter says how many bytes of a matched
  occurrence are still to be skipped.\<close>

fun Replace_go :: "string \<Rightarrow> string \<Rightarrow> nat \<Rightarrow> string \<Rightarrow> string" where
  "Replace_go old new skip [] = []"
| "Replace_go old new skip (x # xs) =
     (if 0 < skip then Replace_go old new (skip - 1) xs
      else if prefix old (x # xs) then new @ Replace_go old new (length old - 1) xs
      else x # Replace_go old new 0 xs)"

definition Replace :: "string \<Rightarrow> string \<Rightarrow> string \<Rightarrow> string" where
  "Replace s old new = Replace_go old new 0 s"

text \<open>\<^verbatim>\<open>strings.Split(s, sep)\<close> for a non-empty \<^verbatim>\<open>sep\<close>; \<open>cur\<close> is the piece that is being
  read.\<close>

fun Split_go :: "string \<Rightarrow> string \<Rightarrow> nat \<Rightarrow> string \<Rightarrow> string list" where
  "Split_go sep cur skip [] = [cur]"
| "Split_go sep cur skip (x # xs) =
     (if 0 < skip then Split_go sep cur (skip - 1) xs
      else if prefix sep (x # xs) then cur # Split_go sep [] (length sep - 1) xs
      else Split_go sep (cur @ [x]) 0 xs)"

definition Split :: "string \<Rightarrow> string \<Rightarrow> string list" where
  "Split s sep = Split_go sep [] 0 s"

fun Contains :: "string \<Rightarrow> string \<Rightarrow> bool" where
  "Contains [] substr = (substr = [])"
| "Contains (x # xs) substr = (prefix substr (x # xs) \<or> Contains xs substr)"

definition HasPrefix :: "string \<Rightarrow> string \<Rightarrow> bool" where
  "HasPrefix s pre = prefix pre s"

definition TrimPrefix :: "string \<Rightarrow> string \<Rightarrow> string" where
  "TrimPrefix s pre = (if HasPrefix s pre then drop (length pre) s else s)"

text \<open>\<^verbatim>\<open>strings.Trim(s, cutset)\<close> for a cutset of ASCII bytes: a byte below 128 is a rune
  of its own in UTF-8, so the bytes of the cutset are cut from both ends.\<close>

definition Trim :: "string \<Rightarrow> string \<Rightarrow> string" where
  "Trim s cutset =
     rev (dropWhile (\<lambda>c. c \<in> set cutset) (rev (dropWhile (\<lambda>c. c \<in> set cutset) s)))"

text \<open>The UTF-8 encodings of the runes for which \<^verbatim>\<open>unicode.IsSpace\<close> holds: tab to
  carriage return, blank, U+0085, U+00A0, U+1680, U+2000 to U+200A, U+2028, U+2029, U+202F,
  U+205F and U+3000.\<close>

definition space_runes :: "string list" where
  "space_runes =
     [[CHR 0x09], [CHR 0x0A], [CHR 0x0B], [CHR 0x0C], [CHR 0x0D], [CHR 0x20],
      [CHR 0xC2, CHR 0x85], [CHR 0xC2, CHR 0xA0], [CHR 0xE1, CHR 0x9A, CHR 0x80],
      [CHR 0xE2, CHR 0x80, CHR 0x80], [CHR 0xE2, CHR 0x80, CHR 0x81],
      [CHR 0xE2, CHR 0x80, CHR 0x82], [CHR 0xE2, CHR 0x80, CHR 0x83],
      [CHR 0xE2, CHR 0x80, CHR 0x84], [CHR 0xE2, CHR 0x80, CHR 0x85],
      [CHR 0xE2, CHR 0x80, CHR 0x86], [CHR 0xE2, CHR 0x80, CHR 0x87],
      [CHR 0xE2, CHR 0x80, CHR 0x88], [CHR 0xE2, CHR 0x80, CHR 0x89],
      [CHR 0xE2, CHR 0x80, CHR 0x8A], [CHR 0xE2, CHR 0x80, CHR 0xA8],
      [CHR 0xE2, CHR 0x80, CHR 0xA9], [CHR 0xE2, CHR 0x80, CHR 0xAF],
      [CHR 0xE2, CHR 0x81, CHR 0x9F], [CHR 0xE3, CHR 0x80, CHR 0x80]]"

text \<open>\<^verbatim>\<open>strings.TrimSpace\<close>: white space runes are cut from the left, then from the
  right. The counter bounds the number of runes cut by the length of the string.\<close>

fun TrimLeftSpace :: "nat \<Rightarrow> string \<Rightarrow> string" where
  "TrimLeftSpace 0 s = s"
| "TrimLeftSpace (Suc k) s =
     (case find (\<lambda>r. prefix r s) space_runes of
        None \<Rightarrow> s
      | Some r \<Rightarrow> TrimLeftSpace k (drop (length r) s))"

fun TrimRightSpace :: "nat \<Rightarrow> string \<Rightarrow> string" where
  "TrimRightSpace 0 s = s"
| "TrimRightSpace (Suc k) s =
     (case find (\<lambda>r. suffix r s) space_runes of
        None \<Rightarrow> s
      | Some r \<Rightarrow> TrimRightSpace k (take (length s - length r) s))"

definition TrimSpace :: "string \<Rightarrow> string" where
  "TrimSpace s = (let l = TrimLeftSpace (length s) s in TrimRightSpace (length l) l)"

text \<open>\<^verbatim>\<open>bytes.Index\<close>: the index of the first occurrence, or -1.\<close>

fun Index_go :: "nat \<Rightarrow> string \<Rightarrow> string \<Rightarrow> int" where
  "Index_go i sep [] = (if sep = [] then int i else - 1)"
| "Index_go i sep (x # xs) = (if prefix sep (x # xs) then int i else Index_go (Suc i) sep xs)"

definition Index :: "string \<Rightarrow> string \<Rightarrow> int" where
  "Index b sep = Index_go 0 sep b"

text \<open>The slice expression \<^verbatim>\<open>b[lo:hi]\<close>, which panics when the bounds are out of order
  or out of range.\<close>

definition slice :: "string \<Rightarrow> int \<Rightarrow> int \<Rightarrow> string option" where
  "slice b lo hi =
     (if 0 \<le> lo \<and> lo \<le> hi \<and> hi \<le> int (length b)
      then Some (take (nat hi - nat lo) (drop (nat lo) b)) else None)"

subsection \<open>Nodes and the store\<close>

text \<open>Modelled from the spec: the flag enumeration (flags.go) and the bitflag package are
  not under src/. Section 3 of the spec lists the flags as independent booleans, so the
  \<^verbatim>\<open>int64\<close> bit field \<^verbatim>\<open>Flag\<close> is the set of the flags that are on. The flags are
  those that node.go names.\<close>

datatype flags =
    IsField | Updating | OnlySelfUpdate
  | NodeCopied | NodeDeleted | NodeDestroyed
  | ChildAdded | ChildMoved | ChildDeleted | ChildrenDeleted
  | FieldUpdated | PropUpdated

type_synonym ki = nat

text \<open>The struct \<^verbatim>\<open>Node\<close>. A \<^verbatim>\<open>Ki\<close> interface value is the address of a node or nil
  (\<open>None\<close>). \<open>KiFlds\<close> and \<open>Typ\<close> stand for what the code reads by reflection from the
  concrete struct that embeds the node: its Ki-typed struct fields, by name, and the name of
  its type. \<open>Embeds\<close> lists the names under which reflection finds the embedded \<^verbatim>\<open>Node\<close>
  itself in that struct: \<^verbatim>\<open>Node\<close> when the struct embeds it directly, and none for a plain
  \<^verbatim>\<open>Node\<close>. \<open>Cons\<close> is the connection list of the signal \<^verbatim>\<open>NodeSig\<close>. The cache
  \<^verbatim>\<open>index\<close> is left out: it is a search hint only.\<close>

record 'v node =
  Nm :: string
  UniqueNm :: string
  Flag :: "flags set"
  Props :: "(string \<rightharpoonup> 'v) option"
  Par :: "ki option"
  Kids :: "ki list"
  Cons :: "ki list"
  Ths :: "ki option"
  KiFlds :: "(string \<times> ki) list"
  Typ :: string
  Embeds :: "string list"

datatype signals = NodeSignalUpdated | NodeSignalDeleting | NodeSignalDestroying

text \<open>One call of \<^verbatim>\<open>Signal.Emit\<close>: the node whose signal emits, the sender, the signal and
  the data (the flags, or nil).\<close>

datatype emission = Emission ki "ki option" signals "flags set option"

text \<open>The store, the trace of the emissions so far (the latest last) and the queue
  \<^verbatim>\<open>DelMgr.Dels\<close> of the deletion manager.\<close>

record 'v state =
  heap :: "ki \<Rightarrow> 'v node"
  sigs :: "emission list"
  Dels :: "ki list"

definition upd :: "ki \<Rightarrow> ('v node \<Rightarrow> 'v node) \<Rightarrow> 'v state \<Rightarrow> 'v state" where
  "upd n f s = s\<lparr>heap := (heap s)(n := f (heap s n))\<rparr>"

definition SetUniqueName :: "ki \<Rightarrow> string \<Rightarrow> 'v state \<Rightarrow> 'v state" where
  "SetUniqueName n name s =
     upd n (\<lambda>nd. nd\<lparr>UniqueNm := Replace (Replace name ''.'' ''_'') ''/'' ''_''\<rparr>) s"

definition UniqueName :: "ki \<Rightarrow> 'v state \<Rightarrow> string" where
  "UniqueName n s = UniqueNm (heap s n)"

subsection \<open>Formatting\<close>

text \<open>The decimal digits of a non-negative index, as \<^verbatim>\<open>fmt.Sprintf\<close> prints them, and
  the verbs \<^verbatim>\<open>%0wd\<close> (padding with zeros) and \<^verbatim>\<open>%wd\<close> (padding with blanks).\<close>

fun itoa :: "nat \<Rightarrow> string" where
  "itoa n = (if n < 10 then [''0123456789'' ! n]
             else itoa (n div 10) @ [''0123456789'' ! (n mod 10)])"

declare itoa.simps [simp del]

definition Sprintf_d :: "char \<Rightarrow> nat \<Rightarrow> nat \<Rightarrow> string" where
  "Sprintf_d padc w i = replicate (w - length (itoa i)) padc @ itoa i"

subsection \<open>Flags\<close>

definition HasFlag :: "ki \<Rightarrow> flags \<Rightarrow> 'v state \<Rightarrow> bool" where
  "HasFlag n f s = (f \<in> Flag (heap s n))"

definition SetFlag :: "ki \<Rightarrow> flags \<Rightarrow> 'v state \<Rightarrow> 'v state" where
  "SetFlag n f s = upd n (\<lambda>nd. nd\<lparr>Flag := insert f (Flag nd)\<rparr>) s"

definition ClearFlag :: "ki \<Rightarrow> flags \<Rightarrow> 'v state \<Rightarrow> 'v state" where
  "ClearFlag n f s = upd n (\<lambda>nd. nd\<lparr>Flag := Flag nd - {f}\<rparr>) s"

definition SetFlagState :: "ki \<Rightarrow> bool \<Rightarrow> flags \<Rightarrow> 'v state \<Rightarrow> 'v state" where
  "SetFlagState n on f s = (if on then SetFlag n f s else ClearFlag n f s)"

definition ClearFlagMask :: "ki \<Rightarrow> flags set \<Rightarrow> 'v state \<Rightarrow> 'v state" where
  "ClearFlagMask n msk s = upd n (\<lambda>nd. nd\<lparr>Flag := Flag nd - msk\<rparr>) s"

text \<open>Modelled from the spec: the constant \<^verbatim>\<open>UpdateFlagsMask\<close> is declared in flags.go,
  which is not under src/. Section 3 of the spec: the flags that record a change are
  transient and cleared by the update bracket, \<^verbatim>\<open>NodeDeleted\<close> and \<^verbatim>\<open>NodeDestroyed\<close> are
  permanent.\<close>

definition UpdateFlagsMask :: "flags set" where
  "UpdateFlagsMask =
     {ChildAdded, ChildMoved, ChildDeleted, ChildrenDeleted, FieldUpdated, PropUpdated}"

definition IsUpdating :: "ki \<Rightarrow> 'v state \<Rightarrow> bool" where
  "IsUpdating n s = HasFlag n Updating s"

definition IsField' :: "ki \<Rightarrow> 'v state \<Rightarrow> bool" where
  "IsField' n s = HasFlag n IsField s"

definition OnlySelfUpdate' :: "ki \<Rightarrow> 'v state \<Rightarrow> bool" where
  "OnlySelfUpdate' n s = HasFlag n OnlySelfUpdate s"

definition SetOnlySelfUpdate :: "ki \<Rightarrow> 'v state \<Rightarrow> 'v state" where
  "SetOnlySelfUpdate n s = SetFlag n OnlySelfUpdate s"

definition IsDeleted :: "ki \<Rightarrow> 'v state \<Rightarrow> bool" where
  "IsDeleted n s = HasFlag n NodeDeleted s"

definition IsDestroyed :: "ki \<Rightarrow> 'v state \<Rightarrow> bool" where
  "IsDestroyed n s = HasFlag n NodeDestroyed s"

definition Flags :: "ki \<Rightarrow> 'v state \<Rightarrow> flags set" where
  "Flags n s = Flag (heap s n)"

subsection \<open>Basic fields\<close>

definition This :: "ki \<Rightarrow> 'v state \<Rightarrow> ki option" where
  "This n s = (if IsDestroyed n s then None else Ths (heap s n))"

definition Name :: "ki \<Rightarrow> 'v state \<Rightarrow> string" where
  "Name n s = Nm (heap s n)"

definition Parent :: "ki \<Rightarrow> 'v state \<Rightarrow> ki option" where
  "Parent n s = Par (heap s n)"

text \<open>Modelled from the spec: \<^verbatim>\<open>Signal\<close> (signal.go) is not under src/. Section 2 of the
  spec: a per-node list of observers notified on change events, with bulk disconnect. An
  emission is recorded in the trace; what the observers do is outside the model.\<close>

definition Emit :: "ki \<Rightarrow> ki option \<Rightarrow> signals \<Rightarrow> flags set option \<Rightarrow> 'v state \<Rightarrow> 'v state" where
  "Emit n sender sig dat s = s\<lparr>sigs := sigs s @ [Emission n sender sig dat]\<rparr>"

text \<open>\<^verbatim>\<open>Disconnect\<close> drops the observers of the node signal. It then goes through the
  fields of the concrete struct with \<^verbatim>\<open>FlatFieldsValueFunc\<close>, which leaves out the fields of
  the embedded \<^verbatim>\<open>Node\<close>, and resets the interface, pointer, signal and \<^verbatim>\<open>Ptr\<close> fields it
  meets: a Ki-typed struct field is none of these, so of the fields of the record only the
  connection list changes.\<close>

definition Disconnect :: "ki \<Rightarrow> 'v state \<Rightarrow> 'v state" where
  "Disconnect n s = upd n (\<lambda>nd. nd\<lparr>Cons := []\<rparr>) s"

subsection \<open>Paths\<close>

fun PathUnique :: "nat \<Rightarrow> ki \<Rightarrow> 'v state \<Rightarrow> string option" where
  "PathUnique 0 n s = None"
| "PathUnique (Suc fuel) n s =
     (case Par (heap s n) of
        Some p \<Rightarrow>
          (case PathUnique fuel p s of
             None \<Rightarrow> None
           | Some pp \<Rightarrow>
               if IsField' n s then Some (pp @ ''.'' @ UniqueNm (heap s n))
               else Some (pp @ ''/'' @ UniqueNm (heap s n)))
      | None \<Rightarrow> Some (''/'' @ UniqueNm (heap s n)))"

subsection \<open>Unique names among the children\<close>

definition UniquifyPreserveNameLimit :: nat where
  "UniquifyPreserveNameLimit = 100"

text \<open>The loop of the branch for many children: every child gets its name and its index.\<close>

fun Uniquify_index :: "char \<Rightarrow> nat \<Rightarrow> nat \<Rightarrow> ki list \<Rightarrow> 'v state \<Rightarrow> 'v state" where
  "Uniquify_index padc w i [] s = s"
| "Uniquify_index padc w i (child # rest) s =
     Uniquify_index padc w (Suc i) rest
       (SetUniqueName child (Name child s @ ''_'' @ Sprintf_d padc w i) s)"

text \<open>The loop of the branch that preserves names; \<open>nmap\<close> is the map of the names taken.\<close>

fun Uniquify_preserve ::
  "ki \<Rightarrow> nat \<Rightarrow> ki list \<Rightarrow> (string \<rightharpoonup> nat) \<Rightarrow> 'v state \<Rightarrow> 'v state" where
  "Uniquify_preserve n i [] nmap s = s"
| "Uniquify_preserve n i (child # rest) nmap s =
     (let s1 =
        (if length (UniqueName child s) = 0 then
           (case Par (heap s n) of
              Some p \<Rightarrow>
                SetUniqueName child (UniqueName p s @ ''_'' @ Sprintf_d (CHR ''0'') 3 i) s
            | None \<Rightarrow> SetUniqueName child (''c'' @ Sprintf_d (CHR ''0'') 3 i) s)
         else s)
      in case nmap (UniqueName child s1) of
           Some taken \<Rightarrow>
             Uniquify_preserve n (Suc i) rest nmap
               (SetUniqueName child
                  (UniqueName child s1 @ ''_'' @ Sprintf_d (CHR ''0'') 3 i) s1)
         | None \<Rightarrow>
             Uniquify_preserve n (Suc i) rest (nmap(UniqueName child s1 \<mapsto> i)) s1)"

definition UniquifyNames :: "ki \<Rightarrow> 'v state \<Rightarrow> 'v state" where
  "UniquifyNames n s =
     (let kids = Kids (heap s n); sz = length kids in
      if sz > UniquifyPreserveNameLimit then
        (if sz > 9999999 then Uniquify_index (CHR '' '') 10 0 kids s
         else if sz > 999999 then Uniquify_index (CHR ''0'') 7 0 kids s
         else if sz > 99999 then Uniquify_index (CHR ''0'') 6 0 kids s
         else Uniquify_index (CHR ''0'') 5 0 kids s)
      else Uniquify_preserve n 0 kids Map.empty s)"

definition SetName :: "ki \<Rightarrow> string \<Rightarrow> 'v state \<Rightarrow> bool \<times> 'v state" where
  "SetName n name s =
     (if Nm (heap s n) = name then (False, s)
      else
        let s1 = SetUniqueName n name (upd n (\<lambda>nd. nd\<lparr>Nm := name\<rparr>) s) in
        case Par (heap s1 n) of
          Some p \<Rightarrow> (True, UniquifyNames p s1)
        | None \<Rightarrow> (True, s1))"

subsection \<open>Walking the tree\<close>

text \<open>\<^verbatim>\<open>FuncDownMeFirst\<close>: the node, then its Ki-typed struct fields, then its children. The
  visitor gets the self-handle of the node it is called on, and may itself not return.
  \<^verbatim>\<open>FuncFields\<close> passes the self-handle of each field; calling \<^verbatim>\<open>FuncDownMeFirst\<close> on
  a nil handle panics.\<close>

fun FuncDownMeFirst ::
    "nat \<Rightarrow> (ki \<Rightarrow> 'v state \<Rightarrow> (bool \<times> 'v state) option) \<Rightarrow> ki \<Rightarrow> 'v state \<Rightarrow> (bool \<times> 'v state) option"
  and FuncDown_fields ::
    "nat \<Rightarrow> (ki \<Rightarrow> 'v state \<Rightarrow> (bool \<times> 'v state) option) \<Rightarrow> (string \<times> ki) list \<Rightarrow> 'v state \<Rightarrow> 'v state option"
  and FuncDown_kids ::
    "nat \<Rightarrow> (ki \<Rightarrow> 'v state \<Rightarrow> (bool \<times> 'v state) option) \<Rightarrow> ki list \<Rightarrow> 'v state \<Rightarrow> 'v state option"
where
  "FuncDownMeFirst 0 fn n s = None"
| "FuncDownMeFirst (Suc fuel) fn n s =
     (case This n s of
        None \<Rightarrow> Some (False, s)
      | Some t \<Rightarrow>
          (case fn t s of
             None \<Rightarrow> None
           | Some (False, s1) \<Rightarrow> Some (False, s1)
           | Some (True, s1) \<Rightarrow>
               (case (case This n s1 of
                        None \<Rightarrow> Some s1
                      | Some t1 \<Rightarrow> FuncDown_fields fuel fn (KiFlds (heap s1 t1)) s1) of
                  None \<Rightarrow> None
                | Some s2 \<Rightarrow>
                    (case FuncDown_kids fuel fn (Kids (heap s2 n)) s2 of
                       None \<Rightarrow> None
                     | Some s3 \<Rightarrow> Some (True, s3)))))"
| "FuncDown_fields fuel fn [] s = Some s"
| "FuncDown_fields fuel fn (fld # rest) s =
     (case This (snd fld) s of
        None \<Rightarrow> None
      | Some k \<Rightarrow>
          (case FuncDownMeFirst fuel fn k s of
             None \<Rightarrow> None
           | Some (r, s1) \<Rightarrow> FuncDown_fields fuel fn rest s1))"
| "FuncDown_kids fuel fn [] s = Some s"
| "FuncDown_kids fuel fn (child # rest) s =
     (case FuncDownMeFirst fuel fn child s of
        None \<Rightarrow> None
      | Some (r, s1) \<Rightarrow> FuncDown_kids fuel fn rest s1)"

text \<open>\<^verbatim>\<open>FuncUp\<close>: the node, then its parents. The variable that the visitor of
  \<^verbatim>\<open>AddChildCheck\<close> assigns is passed along as \<open>a\<close>.\<close>

fun FuncUp ::
  "nat \<Rightarrow> (ki option \<Rightarrow> 'a \<Rightarrow> (bool \<times> 'a) option) \<Rightarrow> ki \<Rightarrow> 'v state \<Rightarrow> 'a \<Rightarrow> (bool \<times> 'a) option"
where
  "FuncUp 0 fn n s a = None"
| "FuncUp (Suc fuel) fn n s a =
     (case fn (This n s) a of
        None \<Rightarrow> None
      | Some (False, a1) \<Rightarrow> Some (False, a1)
      | Some (True, a1) \<Rightarrow>
          (case Parent n s of
             Some p \<Rightarrow> if Some p \<noteq> This n s then FuncUp fuel fn p s a1 else Some (True, a1)
           | None \<Rightarrow> Some (True, a1)))"

definition SetParent :: "nat \<Rightarrow> ki \<Rightarrow> ki option \<Rightarrow> 'v state \<Rightarrow> 'v state option" where
  "SetParent fuel n parent s =
     (let s1 = upd n (\<lambda>nd. nd\<lparr>Par := parent\<rparr>) s in
      case parent of
        None \<Rightarrow> Some s1
      | Some p \<Rightarrow>
          if \<not> OnlySelfUpdate' p s1 then
            (let parup = IsUpdating p s1 in
             case FuncDownMeFirst fuel (\<lambda>k s'. Some (True, SetFlagState k parup Updating s')) n s1 of
               None \<Rightarrow> None
             | Some (r, s2) \<Rightarrow> Some s2)
          else Some s1)"

subsection \<open>The update bracket\<close>

definition UpdateStart_fn :: "ki \<Rightarrow> 'v state \<Rightarrow> (bool \<times> 'v state) option" where
  "UpdateStart_fn k s =
     (if \<not> IsUpdating k s
      then Some (True, SetFlag k Updating (ClearFlagMask k UpdateFlagsMask s))
      else Some (False, s))"

definition UpdateStart :: "nat \<Rightarrow> ki \<Rightarrow> 'v state \<Rightarrow> (bool \<times> 'v state) option" where
  "UpdateStart fuel n s =
     (if IsUpdating n s \<or> IsDestroyed n s then Some (False, s)
      else if OnlySelfUpdate' n s then Some (True, SetFlag n Updating s)
      else
        (case FuncDownMeFirst fuel UpdateStart_fn n s of
           None \<Rightarrow> None
         | Some (r, s1) \<Rightarrow> Some (True, s1)))"

definition UpdateEnd_fn :: "ki \<Rightarrow> 'v state \<Rightarrow> (bool \<times> 'v state) option" where
  "UpdateEnd_fn k s = Some (True, ClearFlag k Updating s)"

definition UpdateReset :: "nat \<Rightarrow> ki \<Rightarrow> 'v state \<Rightarrow> 'v state option" where
  "UpdateReset fuel n s =
     (if OnlySelfUpdate' n s then Some (ClearFlag n Updating s)
      else
        (case FuncDownMeFirst fuel UpdateEnd_fn n s of
           None \<Rightarrow> None
         | Some (r, s1) \<Rightarrow> Some s1))"

definition UpdateSig :: "ki \<Rightarrow> 'v state \<Rightarrow> bool \<times> 'v state" where
  "UpdateSig n s =
     (if IsUpdating n s \<or> IsDestroyed n s then (False, s)
      else (True, Emit n (This n s) NodeSignalUpdated (Some (Flags n s)) s))"

definition DisconnectAll :: "nat \<Rightarrow> ki \<Rightarrow> 'v state \<Rightarrow> 'v state option" where
  "DisconnectAll fuel n s =
     (case FuncDownMeFirst fuel (\<lambda>k s'. Some (True, Disconnect k s')) n s of
        None \<Rightarrow> None
      | Some (r, s1) \<Rightarrow> Some s1)"

subsection \<open>Deleting and destroying\<close>

text \<open>The loop of \<^verbatim>\<open>DeleteChildren\<close> over the children.\<close>

fun DeleteChildren_loop :: "nat \<Rightarrow> ki list \<Rightarrow> 'v state \<Rightarrow> 'v state option" where
  "DeleteChildren_loop fuel [] s = Some s"
| "DeleteChildren_loop fuel (child # rest) s =
     (let s1 = Emit child (Some child) NodeSignalDeleting None (SetFlag child NodeDeleted s) in
      case SetParent fuel child None s1 of
        None \<Rightarrow> None
      | Some s2 \<Rightarrow>
          (case UpdateReset fuel child s2 of
             None \<Rightarrow> None
           | Some s3 \<Rightarrow> DeleteChildren_loop fuel rest s3))"

text \<open>\<^verbatim>\<open>UpdateEnd\<close> drains the deletion manager, whose \<^verbatim>\<open>DestroyDeleted\<close> destroys each
  queued node, and \<^verbatim>\<open>Destroy\<close> deletes the children inside an update bracket of its own:
  the four functions are mutually recursive.\<close>

fun UpdateEnd :: "nat \<Rightarrow> ki \<Rightarrow> bool \<Rightarrow> 'v state \<Rightarrow> 'v state option"
  and DestroyDeleted :: "nat \<Rightarrow> 'v state \<Rightarrow> 'v state option"
  and Destroy_all :: "nat \<Rightarrow> ki list \<Rightarrow> 'v state \<Rightarrow> 'v state option"
  and Destroy :: "nat \<Rightarrow> ki \<Rightarrow> 'v state \<Rightarrow> 'v state option"
  and Destroy_fields :: "nat \<Rightarrow> (string \<times> ki) list \<Rightarrow> 'v state \<Rightarrow> 'v state option"
  and DeleteChildren :: "nat \<Rightarrow> ki \<Rightarrow> bool \<Rightarrow> 'v state \<Rightarrow> 'v state option"
where
  "UpdateEnd 0 n updt s = None"
| "UpdateEnd (Suc fuel) n updt s =
     (if \<not> updt then Some s
      else if IsDestroyed n s \<or> IsDeleted n s then Some s
      else
        (case (if HasFlag n ChildDeleted s \<or> HasFlag n ChildrenDeleted s
               then DestroyDeleted fuel s else Some s) of
           None \<Rightarrow> None
         | Some s1 \<Rightarrow>
             if OnlySelfUpdate' n s1 then
               (let s2 = ClearFlag n Updating s1 in
                Some (Emit n (This n s2) NodeSignalUpdated (Some (Flags n s2)) s2))
             else
               (case FuncDownMeFirst fuel UpdateEnd_fn n s1 of
                  None \<Rightarrow> None
                | Some (r, s2) \<Rightarrow>
                    Some (Emit n (This n s2) NodeSignalUpdated (Some (Flags n s2)) s2))))"
| "DestroyDeleted 0 s = None"
| "DestroyDeleted (Suc fuel) s = Destroy_all fuel (Dels s) (s\<lparr>Dels := []\<rparr>)"
| "Destroy_all fuel [] s = Some s"
| "Destroy_all fuel (k # ks) s =
     (case Destroy fuel k s of
        None \<Rightarrow> None
      | Some s1 \<Rightarrow> Destroy_all fuel ks s1)"
| "Destroy 0 n s = None"
| "Destroy (Suc fuel) n s =
     (case This n s of
        None \<Rightarrow> Some s
      | Some t \<Rightarrow>
          (case DisconnectAll fuel n (Emit n (Some t) NodeSignalDestroying None s) of
             None \<Rightarrow> None
           | Some s2 \<Rightarrow>
               (case DeleteChildren fuel n True s2 of
                  None \<Rightarrow> None
                | Some s3 \<Rightarrow>
                    (case (case This n s3 of
                             None \<Rightarrow> Some s3
                           | Some t3 \<Rightarrow> Destroy_fields fuel (KiFlds (heap s3 t3)) s3) of
                       None \<Rightarrow> None
                     | Some s4 \<Rightarrow>
                         (case DestroyDeleted fuel s4 of
                            None \<Rightarrow> None
                          | Some s5 \<Rightarrow>
                              Some (upd n (\<lambda>nd. nd\<lparr>Ths := None\<rparr>)
                                      (SetFlag n NodeDestroyed s5)))))))"
| "Destroy_fields fuel [] s = Some s"
| "Destroy_fields fuel (fld # rest) s =
     (case This (snd fld) s of
        None \<Rightarrow> None
      | Some k \<Rightarrow>
          (case Destroy fuel k s of
             None \<Rightarrow> None
           | Some s1 \<Rightarrow> Destroy_fields fuel rest s1))"
| "DeleteChildren 0 n destroy s = None"
| "DeleteChildren (Suc fuel) n destroy s =
     (case UpdateStart fuel n s of
        None \<Rightarrow> None
      | Some (updt, s1) \<Rightarrow>
          (let s2 = SetFlag n ChildrenDeleted s1 in
           case DeleteChildren_loop fuel (Kids (heap s2 n)) s2 of
             None \<Rightarrow> None
           | Some s3 \<Rightarrow>
               (let s4 = (if destroy then s3\<lparr>Dels := Dels s3 @ Kids (heap s3 n)\<rparr> else s3);
                    s5 = upd n (\<lambda>nd. nd\<lparr>Kids := []\<rparr>) s4
                in UpdateEnd fuel n updt s5)))"

subsection \<open>The child slice\<close>

text \<open>Modelled from the spec: the type \<^verbatim>\<open>Slice\<close> (slice.go) is not under src/. Section 2
  of the spec: an insertion-ordered, index-addressable sequence with lookup by unique name
  and insert and delete at an index. A lookup from the start index 0 yields the first
  match; an insertion index beyond the end appends.\<close>

fun IndexByFunc :: "('a \<Rightarrow> bool) \<Rightarrow> nat \<Rightarrow> 'a list \<Rightarrow> nat option" where
  "IndexByFunc P i [] = None"
| "IndexByFunc P i (x # xs) = (if P x then Some i else IndexByFunc P (Suc i) xs)"

definition IndexOf :: "ki list \<Rightarrow> ki \<Rightarrow> nat option" where
  "IndexOf kids kid = IndexByFunc (\<lambda>k. k = kid) 0 kids"

definition IndexByUniqueName :: "ki list \<Rightarrow> string \<Rightarrow> 'v state \<Rightarrow> nat option" where
  "IndexByUniqueName kids name s = IndexByFunc (\<lambda>k. UniqueName k s = name) 0 kids"

definition IsValidIndex :: "'a list \<Rightarrow> int \<Rightarrow> bool" where
  "IsValidIndex kids idx = (0 \<le> idx \<and> idx < int (length kids))"

definition DeleteAtIndex :: "'a list \<Rightarrow> nat \<Rightarrow> 'a list" where
  "DeleteAtIndex kids idx = take idx kids @ drop (Suc idx) kids"

definition Insert :: "'a list \<Rightarrow> 'a \<Rightarrow> nat \<Rightarrow> 'a list" where
  "Insert kids kid at = take at kids @ kid # drop at kids"

subsection \<open>Initialisation\<close>

text \<open>\<^verbatim>\<open>Init\<close> binds the self-handle and, when it changes, initialises every Ki-typed struct
  field of the concrete object under the field's name, as a field of \<open>this\<close>.\<close>

fun Init :: "nat \<Rightarrow> ki \<Rightarrow> ki \<Rightarrow> 'v state \<Rightarrow> 'v state option"
  and Init_fields :: "nat \<Rightarrow> ki \<Rightarrow> (string \<times> ki) list \<Rightarrow> 'v state \<Rightarrow> 'v state option"
where
  "Init 0 n this s = None"
| "Init (Suc fuel) n this s =
     (let s1 = ClearFlagMask n UpdateFlagsMask s in
      if Ths (heap s1 n) \<noteq> Some this then
        (let s2 = upd n (\<lambda>nd. nd\<lparr>Ths := Some this\<rparr>) s1 in
         Init_fields fuel this (KiFlds (heap s2 this)) s2)
      else Some s1)"
| "Init_fields fuel this [] s = Some s"
| "Init_fields fuel this (fld # rest) s =
     (let fk = snd fld; s1 = SetFlag fk IsField s in
      case Init fuel fk fk s1 of
        None \<Rightarrow> None
      | Some s2 \<Rightarrow>
          (case SetParent fuel fk (Some this) (snd (SetName fk (fst fld) s2)) of
             None \<Rightarrow> None
           | Some s3 \<Rightarrow> Init_fields fuel this rest s3))"

definition InitName :: "nat \<Rightarrow> ki \<Rightarrow> ki \<Rightarrow> string \<Rightarrow> 'v state \<Rightarrow> 'v state option" where
  "InitName fuel n k name s =
     (case Init fuel n k s of
        None \<Rightarrow> None
      | Some s1 \<Rightarrow> Some (snd (SetName n name s1)))"

subsection \<open>Adding and deleting children\<close>

text \<open>The errors of node.go are \<^verbatim>\<open>fmt.Errorf\<close> values; each constructor carries the paths
  and type names that the message prints.\<close>

datatype error =
    SelfNotInitialized string
  | CycleError string
  | NullFrom string
  | TypeMismatch string string string string

definition ThisCheck :: "nat \<Rightarrow> ki \<Rightarrow> 'v state \<Rightarrow> error option option" where
  "ThisCheck fuel n s =
     (if This n s = None then
        (case PathUnique fuel n s of
           None \<Rightarrow> None
         | Some p \<Rightarrow> Some (Some (SelfNotInitialized p)))
      else Some None)"

definition AddChildCheck :: "nat \<Rightarrow> ki \<Rightarrow> ki \<Rightarrow> 'v state \<Rightarrow> error option option" where
  "AddChildCheck fuel n kid s =
     (case FuncUp fuel
             (\<lambda>k err. if k = Some kid then
                         (case PathUnique fuel n s of
                            None \<Rightarrow> None
                          | Some p \<Rightarrow> Some (False, Some (CycleError p)))
                       else Some (True, err))
             n s None of
        None \<Rightarrow> None
      | Some (r, err) \<Rightarrow> Some err)"

definition DeleteChildAtIndex ::
  "nat \<Rightarrow> ki \<Rightarrow> int \<Rightarrow> bool \<Rightarrow> 'v state \<Rightarrow> (bool \<times> 'v state) option" where
  "DeleteChildAtIndex fuel n idx destroy s =
     (if \<not> IsValidIndex (Kids (heap s n)) idx then Some (False, s)
      else
        (let child = Kids (heap s n) ! nat idx in
         case UpdateStart fuel n s of
           None \<Rightarrow> None
         | Some (updt, s1) \<Rightarrow>
             (let s2 = SetFlag n ChildDeleted s1 in
              case (if Parent child s2 = This n s2 then
                      SetParent fuel child None
                        (Emit child (Some child) NodeSignalDeleting None
                           (SetFlag child NodeDeleted s2))
                    else Some s2) of
                None \<Rightarrow> None
              | Some s3 \<Rightarrow>
                  (let s4 = upd n (\<lambda>nd. nd\<lparr>Kids := DeleteAtIndex (Kids nd) (nat idx)\<rparr>) s3;
                       s5 = (if destroy then s4\<lparr>Dels := Dels s4 @ [child]\<rparr> else s4)
                   in case UpdateReset fuel child s5 of
                        None \<Rightarrow> None
                      | Some s6 \<Rightarrow>
                          (case UpdateEnd fuel n updt s6 of
                             None \<Rightarrow> None
                           | Some s7 \<Rightarrow> Some (True, s7))))))"

definition DeleteChild ::
  "nat \<Rightarrow> ki \<Rightarrow> ki \<Rightarrow> bool \<Rightarrow> 'v state \<Rightarrow> (bool \<times> 'v state) option" where
  "DeleteChild fuel n child destroy s =
     (case IndexOf (Kids (heap s n)) child of
        None \<Rightarrow> Some (False, s)
      | Some idx \<Rightarrow> DeleteChildAtIndex fuel n (int idx) destroy s)"

definition addChildImplPost :: "nat \<Rightarrow> ki \<Rightarrow> ki \<Rightarrow> 'v state \<Rightarrow> 'v state option" where
  "addChildImplPost fuel n kid s =
     (let oldPar = Parent kid s in
      case SetParent fuel kid (This n s) s of
        None \<Rightarrow> None
      | Some s1 \<Rightarrow>
          (case oldPar of
             Some op \<Rightarrow>
               (case DeleteChild fuel op kid False s1 of
                  None \<Rightarrow> None
                | Some (r, s2) \<Rightarrow> Some (SetFlag kid ChildMoved s2))
           | None \<Rightarrow> Some (SetFlag kid ChildAdded s1)))"

definition AddChildImpl ::
  "nat \<Rightarrow> ki \<Rightarrow> ki \<Rightarrow> 'v state \<Rightarrow> (error option \<times> 'v state) option" where
  "AddChildImpl fuel n kid s =
     (case ThisCheck fuel n s of
        None \<Rightarrow> None
      | Some (Some e) \<Rightarrow> Some (Some e, s)
      | Some None \<Rightarrow>
          (case AddChildCheck fuel n kid s of
             None \<Rightarrow> None
           | Some (Some e) \<Rightarrow> Some (Some e, s)
           | Some None \<Rightarrow>
               (case Init fuel kid kid s of
                  None \<Rightarrow> None
                | Some s1 \<Rightarrow>
                    (case addChildImplPost fuel n kid
                            (upd n (\<lambda>nd. nd\<lparr>Kids := Kids nd @ [kid]\<rparr>) s1) of
                       None \<Rightarrow> None
                     | Some s2 \<Rightarrow> Some (None, s2)))))"

definition InsertChildImpl ::
  "nat \<Rightarrow> ki \<Rightarrow> ki \<Rightarrow> nat \<Rightarrow> 'v state \<Rightarrow> (error option \<times> 'v state) option" where
  "InsertChildImpl fuel n kid at s =
     (case ThisCheck fuel n s of
        None \<Rightarrow> None
      | Some (Some e) \<Rightarrow> Some (Some e, s)
      | Some None \<Rightarrow>
          (case AddChildCheck fuel n kid s of
             None \<Rightarrow> None
           | Some (Some e) \<Rightarrow> Some (Some e, s)
           | Some None \<Rightarrow>
               (case Init fuel kid kid s of
                  None \<Rightarrow> None
                | Some s1 \<Rightarrow>
                    (case addChildImplPost fuel n kid
                            (upd n (\<lambda>nd. nd\<lparr>Kids := Insert (Kids nd) kid at\<rparr>) s1) of
                       None \<Rightarrow> None
                     | Some s2 \<Rightarrow> Some (None, s2)))))"

text \<open>What \<^verbatim>\<open>AddChild\<close> and \<^verbatim>\<open>InsertChild\<close> do when the child is in place.\<close>

definition added :: "ki \<Rightarrow> ki \<Rightarrow> 'v state \<Rightarrow> 'v state" where
  "added n kid s =
     (let s1 = SetFlag n ChildAdded s;
          s2 = (if UniqueName kid s1 = [] then SetUniqueName kid (Name kid s1) s1 else s1)
      in UniquifyNames n s2)"

definition AddChild ::
  "nat \<Rightarrow> ki \<Rightarrow> ki \<Rightarrow> 'v state \<Rightarrow> (error option \<times> 'v state) option" where
  "AddChild fuel n kid s =
     (case UpdateStart fuel n s of
        None \<Rightarrow> None
      | Some (updt, s1) \<Rightarrow>
          (case AddChildImpl fuel n kid s1 of
             None \<Rightarrow> None
           | Some (err, s2) \<Rightarrow>
               (case UpdateEnd fuel n updt (if err = None then added n kid s2 else s2) of
                  None \<Rightarrow> None
                | Some s3 \<Rightarrow> Some (err, s3))))"

definition InsertChild ::
  "nat \<Rightarrow> ki \<Rightarrow> ki \<Rightarrow> nat \<Rightarrow> 'v state \<Rightarrow> (error option \<times> 'v state) option" where
  "InsertChild fuel n kid at s =
     (case UpdateStart fuel n s of
        None \<Rightarrow> None
      | Some (updt, s1) \<Rightarrow>
          (case InsertChildImpl fuel n kid at s1 of
             None \<Rightarrow> None
           | Some (err, s2) \<Rightarrow>
               (case UpdateEnd fuel n updt (if err = None then added n kid s2 else s2) of
                  None \<Rightarrow> None
                | Some s3 \<Rightarrow> Some (err, s3))))"

subsection \<open>Properties of a node\<close>

definition SetProp :: "ki \<Rightarrow> string \<Rightarrow> 'v \<Rightarrow> 'v state \<Rightarrow> 'v state" where
  "SetProp n key val s =
     upd n (\<lambda>nd. nd\<lparr>Props :=
       Some ((case Props nd of None \<Rightarrow> Map.empty | Some m \<Rightarrow> m)(key \<mapsto> val))\<rparr>) s"

definition SetPropUpdate :: "ki \<Rightarrow> string \<Rightarrow> 'v \<Rightarrow> 'v state \<Rightarrow> 'v state" where
  "SetPropUpdate n key val s = snd (UpdateSig n (SetProp n key val (SetFlag n PropUpdated s)))"

definition Prop :: "ki \<Rightarrow> string \<Rightarrow> 'v state \<Rightarrow> 'v option" where
  "Prop n key s = (case Props (heap s n) of None \<Rightarrow> None | Some m \<Rightarrow> m key)"

subsection \<open>Resolving a unique path\<close>

text \<open>\<^verbatim>\<open>KiFieldByName\<close> reads the struct behind the self-handle by reflection, and panics
  without one. \<^verbatim>\<open>FieldByName\<close> finds a field of the struct by its name, the embedded
  \<^verbatim>\<open>Node\<close> included, and the field is returned when a pointer to it is a Ki: the embedded
  \<^verbatim>\<open>Node\<close> is the node itself, a Ki-typed struct field is the node of that field. The names
  of the fields of a struct are taken to be distinct.\<close>

definition KiFieldByName :: "ki \<Rightarrow> string \<Rightarrow> 'v state \<Rightarrow> ki option option" where
  "KiFieldByName n name s =
     (case This n s of
        None \<Rightarrow> None
      | Some t \<Rightarrow>
          Some (if name \<in> set (Embeds (heap s t)) then Some t
                else map_of (KiFlds (heap s t)) name))"

text \<open>The inner loop of \<^verbatim>\<open>FindPathUnique\<close> over the field names that follow a child.\<close>

fun Find_fields :: "ki \<Rightarrow> string list \<Rightarrow> 'v state \<Rightarrow> ki option option" where
  "Find_fields curn [] s = Some (Some curn)"
| "Find_fields curn (fe # rest) s =
     (case KiFieldByName curn fe s of
        None \<Rightarrow> None
      | Some None \<Rightarrow> Some None
      | Some (Some fk) \<Rightarrow> Find_fields fk rest s)"

text \<open>The loop of \<^verbatim>\<open>FindPathUnique\<close> over the path elements, from the index \<open>i\<close> on.\<close>

fun Find_loop :: "nat \<Rightarrow> ki \<Rightarrow> string list \<Rightarrow> 'v state \<Rightarrow> ki option option" where
  "Find_loop i curn [] s = Some (Some curn)"
| "Find_loop i curn (pe # rest) s =
     (if length pe = 0 then Find_loop (Suc i) curn rest s
      else if i \<le> 1 \<and> UniqueName curn s = pe then Find_loop (Suc i) curn rest s
      else if Contains pe ''.'' then
        (case Split pe ''.'' of
           [] \<Rightarrow> None
         | fel0 # fels \<Rightarrow>
             (case IndexByUniqueName (Kids (heap s curn)) fel0 s of
                None \<Rightarrow> Some None
              | Some idx \<Rightarrow>
                  (case Find_fields (Kids (heap s curn) ! idx) fels s of
                     None \<Rightarrow> None
                   | Some None \<Rightarrow> Some None
                   | Some (Some fk) \<Rightarrow> Find_loop (Suc i) fk rest s)))
      else
        (case IndexByUniqueName (Kids (heap s curn)) pe s of
           None \<Rightarrow> Some None
         | Some idx \<Rightarrow> Find_loop (Suc i) (Kids (heap s curn) ! idx) rest s))"

definition FindPathUnique :: "nat \<Rightarrow> ki \<Rightarrow> string \<Rightarrow> 'v state \<Rightarrow> ki option option" where
  "FindPathUnique fuel n path s =
     (case (case Par (heap s n) of
              Some p \<Rightarrow>
                (case PathUnique fuel n s of
                   None \<Rightarrow> None
                 | Some myp \<Rightarrow> Some (TrimPrefix path myp))
            | None \<Rightarrow> Some path) of
        None \<Rightarrow> None
      | Some path1 \<Rightarrow> Find_loop 0 n (Split (Trim (TrimSpace path1) [CHR 0x22]) ''/'') s)"

subsection \<open>Copying\<close>

text \<open>\<^verbatim>\<open>Type\<close> is the type of the object behind the self-handle, and panics without
  one.\<close>

definition Type :: "ki \<Rightarrow> 'v state \<Rightarrow> string option" where
  "Type n s = (case This n s of None \<Rightarrow> None | Some t \<Rightarrow> Some (Typ (heap s t)))"

definition IsRoot :: "ki \<Rightarrow> 'v state \<Rightarrow> bool" where
  "IsRoot n s =
     (This n s = None \<or>
      (case Par (heap s n) of None \<Rightarrow> True | Some p \<Rightarrow> This p s = None))"

fun Root :: "nat \<Rightarrow> ki \<Rightarrow> 'v state \<Rightarrow> ki option option" where
  "Root 0 n s = None"
| "Root (Suc fuel) n s =
     (if IsRoot n s then Some (This n s)
      else (case Par (heap s n) of None \<Rightarrow> None | Some p \<Rightarrow> Root fuel p s))"

text \<open>The type \<^verbatim>\<open>Ptr\<close> is not under src/ and the model has no fields of that type: the
  three functions that visit them, \<^verbatim>\<open>GetPtrPaths\<close>, \<^verbatim>\<open>UpdatePtrPaths\<close> and
  \<^verbatim>\<open>SetPtrsFmPaths\<close>, only walk the tree.\<close>

definition GetPtrPaths :: "nat \<Rightarrow> ki \<Rightarrow> 'v state \<Rightarrow> 'v state option" where
  "GetPtrPaths fuel n s =
     (case FuncDownMeFirst fuel (\<lambda>k s'. Some (True, s')) n s of
        None \<Rightarrow> None
      | Some (r, s1) \<Rightarrow> Some s1)"

definition SetPtrsFmPaths :: "nat \<Rightarrow> ki \<Rightarrow> 'v state \<Rightarrow> 'v state option" where
  "SetPtrsFmPaths fuel n s =
     (case Root fuel n s of
        None \<Rightarrow> None
      | Some root \<Rightarrow>
          (case FuncDownMeFirst fuel (\<lambda>k s'. Some (True, s')) n s of
             None \<Rightarrow> None
           | Some (r, s1) \<Rightarrow> Some s1))"

definition UpdatePtrPaths :: "nat \<Rightarrow> ki \<Rightarrow> string \<Rightarrow> string \<Rightarrow> 'v state \<Rightarrow> 'v state option" where
  "UpdatePtrPaths fuel n oldPath newPath s = SetPtrsFmPaths fuel n s"

text \<open>\<^verbatim>\<open>CopyFrom\<close>. Its callee \<^verbatim>\<open>CopyFromRaw\<close> reconciles the children with
  \<^verbatim>\<open>Slice.Config\<close> and copies the struct fields by reflection over the concrete type;
  neither is under src/, so \<^verbatim>\<open>CopyFromRaw\<close> is a parameter. In the code it returns no
  error.\<close>

definition CopyFrom ::
  "nat \<Rightarrow> (ki \<Rightarrow> ki \<Rightarrow> 'v state \<Rightarrow> 'v state option) \<Rightarrow> ki \<Rightarrow> ki option \<Rightarrow> 'v state
     \<Rightarrow> (error option \<times> 'v state) option" where
  "CopyFrom fuel CopyFromRaw n from s =
     (case from of
        None \<Rightarrow>
          (case PathUnique fuel n s of
             None \<Rightarrow> None
           | Some p \<Rightarrow> Some (Some (NullFrom p), s))
      | Some fm \<Rightarrow>
          (case PathUnique fuel n s of
             None \<Rightarrow> None
           | Some mypath \<Rightarrow>
          (case PathUnique fuel fm s of
             None \<Rightarrow> None
           | Some fmpath \<Rightarrow>
          (case Type n s of
             None \<Rightarrow> None
           | Some tn \<Rightarrow>
          (case Type fm s of
             None \<Rightarrow> None
           | Some tf \<Rightarrow>
               if tn \<noteq> tf then Some (Some (TypeMismatch mypath fmpath tn tf), s)
               else
          (case UpdateStart fuel n s of
             None \<Rightarrow> None
           | Some (updt, s1) \<Rightarrow>
          (let s2 = SetFlag n NodeCopied s1 in
           case Root fuel n s2 of
             None \<Rightarrow> None
           | Some rn \<Rightarrow>
          (case Root fuel fm s2 of
             None \<Rightarrow> None
           | Some rf \<Rightarrow>
          (case GetPtrPaths fuel fm s2 of
             None \<Rightarrow> None
           | Some s3 \<Rightarrow>
          (case CopyFromRaw n fm s3 of
             None \<Rightarrow> None
           | Some s4 \<Rightarrow>
          (case (if rn = rf then UpdatePtrPaths fuel n fmpath mypath s4 else Some s4) of
             None \<Rightarrow> None
           | Some s5 \<Rightarrow>
          (case SetPtrsFmPaths fuel n s5 of
             None \<Rightarrow> None
           | Some s6 \<Rightarrow>
          (case UpdateEnd fuel n updt s6 of
             None \<Rightarrow> None
           | Some s7 \<Rightarrow> Some (None, s7))))))))))))))"

subsection \<open>Writing and reading JSON\<close>

definition JSONTypePrefix :: string where
  "JSONTypePrefix = ''{'' @ [CHR 0x22] @ ''ki.RootType'' @ [CHR 0x22] @ '': ''"

definition JSONTypeSuffix :: string where
  "JSONTypeSuffix = ''}'' @ [CHR 0x0A]"

datatype io_error = NodeError error | CodecError string | TypeNotFound string | PrefixNotFound

text \<open>\<^verbatim>\<open>WriteJSON\<close>, with the bytes it hands to the writer as its result. The encoder
  \<^verbatim>\<open>json.Marshal\<close> (with the marshalling of \<^verbatim>\<open>Slice\<close>) is not under src/ and is a
  parameter; \<open>Typ\<close> is the full name that \<^verbatim>\<open>kit.FullTypeName\<close> gives the type.\<close>

definition WriteJSON ::
  "nat \<Rightarrow> (bool \<Rightarrow> ki \<Rightarrow> 'v state \<Rightarrow> string + string) \<Rightarrow> ki \<Rightarrow> bool \<Rightarrow> 'v state
     \<Rightarrow> (io_error + string) option" where
  "WriteJSON fuel marshal n indent s =
     (case ThisCheck fuel n s of
        None \<Rightarrow> None
      | Some (Some e) \<Rightarrow> Some (Inl (NodeError e))
      | Some None \<Rightarrow>
          (case This n s of
             None \<Rightarrow> None
           | Some t \<Rightarrow>
               (case marshal indent t s of
                  Inl e \<Rightarrow> Some (Inl (CodecError e))
                | Inr b \<Rightarrow>
                    (case Type n s of
                       None \<Rightarrow> None
                     | Some knm \<Rightarrow>
                         Some (Inr ((JSONTypePrefix @ [CHR 0x22] @ knm @ [CHR 0x22] @ ''}''
                                      @ [CHR 0x0A]) @ b))))))"

text \<open>The loop of the visitor of \<^verbatim>\<open>ParentAllChildren\<close>.\<close>

fun ParentAll_loop :: "nat \<Rightarrow> ki \<Rightarrow> ki list \<Rightarrow> 'v state \<Rightarrow> 'v state option" where
  "ParentAll_loop fuel k [] s = Some s"
| "ParentAll_loop fuel k (child # rest) s =
     (case SetParent fuel child (Some k) s of
        None \<Rightarrow> None
      | Some s1 \<Rightarrow> ParentAll_loop fuel k rest s1)"

definition ParentAllChildren :: "nat \<Rightarrow> ki \<Rightarrow> 'v state \<Rightarrow> 'v state option" where
  "ParentAllChildren fuel n s =
     (case FuncDownMeFirst fuel
             (\<lambda>k s'. case ParentAll_loop fuel k (Kids (heap s' k)) s' of
                        None \<Rightarrow> None
                      | Some s'' \<Rightarrow> Some (True, s''))
             n s of
        None \<Rightarrow> None
      | Some (r, s1) \<Rightarrow> Some s1)"

definition UnmarshalPost :: "nat \<Rightarrow> ki \<Rightarrow> 'v state \<Rightarrow> 'v state option" where
  "UnmarshalPost fuel n s =
     (case ParentAllChildren fuel n s of
        None \<Rightarrow> None
      | Some s1 \<Rightarrow> SetPtrsFmPaths fuel n s1)"

text \<open>The type name and the body that \<^verbatim>\<open>ReadNewJSON\<close> cuts out of the bytes; the slice
  expression for the name may panic, that for the body cannot once the name is cut.\<close>

definition JSON_split :: "string \<Rightarrow> (string \<times> string) option" where
  "JSON_split b =
     (let stidx = int (length JSONTypePrefix) + 1;
          eidx = Index b JSONTypeSuffix;
          bodyidx = eidx + int (length JSONTypeSuffix)
      in case slice b stidx eidx of
           None \<Rightarrow> None
         | Some tnb \<Rightarrow>
             (case slice b bodyidx (int (length b)) of
                None \<Rightarrow> None
              | Some body \<Rightarrow> Some (Trim (TrimSpace tnb) [CHR 0x22], body)))"

text \<open>\<^verbatim>\<open>ReadNewJSON\<close>. The type registry with the allocation of a node of the type found
  (\<^verbatim>\<open>kit.Types.Type\<close>, \<^verbatim>\<open>NewOfType\<close>) and the decoder \<^verbatim>\<open>json.Unmarshal\<close> are not under
  src/ and are parameters: \<open>new\<close> gets the type name, \<open>unmarshal\<close> the body and the root.\<close>

definition ReadNewJSON ::
  "nat \<Rightarrow> (string \<Rightarrow> 'v state \<Rightarrow> (ki \<times> 'v state) option)
       \<Rightarrow> (string \<Rightarrow> ki \<Rightarrow> 'v state \<Rightarrow> bool \<times> 'v state) \<Rightarrow> string \<Rightarrow> 'v state
     \<Rightarrow> ((io_error + ki) \<times> 'v state) option" where
  "ReadNewJSON fuel new unmarshal b s =
     (if HasPrefix b JSONTypePrefix then
        (case JSON_split b of
           None \<Rightarrow> None
         | Some (tn, body) \<Rightarrow>
             (case new tn s of
                None \<Rightarrow> Some (Inl (TypeNotFound tn), s)
              | Some (root, s1) \<Rightarrow>
                  (case Init fuel root root s1 of
                     None \<Rightarrow> None
                   | Some s2 \<Rightarrow>
                  (case UpdateStart fuel root s2 of
                     None \<Rightarrow> None
                   | Some (updt, s3) \<Rightarrow>
                  (case unmarshal body root s3 of (ok, s4) \<Rightarrow>
                  (case (if ok then UnmarshalPost fuel root s4 else Some s4) of
                     None \<Rightarrow> None
                   | Some s5 \<Rightarrow>
                  (case UpdateEnd fuel root updt (SetFlag root ChildAdded s5) of
                     None \<Rightarrow> None
                   | Some s6 \<Rightarrow> Some (Inr root, s6))))))))
      else Some (Inl PrefixNotFound, s))"

subsection \<open>Well-formed trees and scenarios\<close>

text \<open>The zero value of the struct \<^verbatim>\<open>Node\<close>, and a store of such nodes.\<close>

definition node0 :: "'v node" where
  "node0 = \<lparr>Nm = [], UniqueNm = [], Flag = {}, Props = None, Par = None, Kids = [],
            Cons = [], Ths = None, KiFlds = [], Typ = ''Node'', Embeds = []\<rparr>"

definition state0 :: "'v state" where
  "state0 = \<lparr>heap = (\<lambda>k. node0), sigs = [], Dels = []\<rparr>"

text \<open>An initialised subtree of depth at most \<open>d\<close>: every node in it, child or field,
  has its self-handle and is not destroyed.\<close>

fun tree_ok :: "nat \<Rightarrow> ki \<Rightarrow> 'v state \<Rightarrow> bool" where
  "tree_ok 0 n s = False"
| "tree_ok (Suc d) n s =
     (This n s = Some n \<and>
      (\<forall>fld \<in> set (KiFlds (heap s n)). tree_ok d (snd fld) s) \<and>
      (\<forall>c \<in> set (Kids (heap s n)). tree_ok d c s))"

text \<open>The chain of the parent links from a node up to a root, when it has at most \<open>d\<close>
  nodes.\<close>

fun ParentChain :: "nat \<Rightarrow> ki \<Rightarrow> 'v state \<Rightarrow> ki list option" where
  "ParentChain 0 n s = None"
| "ParentChain (Suc d) n s =
     (case Par (heap s n) of
        None \<Rightarrow> Some [n]
      | Some p \<Rightarrow> (case ParentChain d p s of None \<Rightarrow> None | Some ch \<Rightarrow> Some (n # ch)))"

text \<open>Opening update brackets on the nodes of a list in turn, which yields their tokens,
  and closing brackets with their tokens.\<close>

fun UpdateStarts :: "nat \<Rightarrow> ki list \<Rightarrow> 'v state \<Rightarrow> (bool list \<times> 'v state) option" where
  "UpdateStarts fuel [] s = Some ([], s)"
| "UpdateStarts fuel (m # ms) s =
     (case UpdateStart fuel m s of
        None \<Rightarrow> None
      | Some (updt, s1) \<Rightarrow>
          (case UpdateStarts fuel ms s1 of
             None \<Rightarrow> None
           | Some (updts, s2) \<Rightarrow> Some (updt # updts, s2)))"

fun UpdateEnds :: "nat \<Rightarrow> (ki \<times> bool) list \<Rightarrow> 'v state \<Rightarrow> 'v state option" where
  "UpdateEnds fuel [] s = Some s"
| "UpdateEnds fuel (mu # mus) s =
     (case UpdateEnd fuel (fst mu) (snd mu) s of
        None \<Rightarrow> None
      | Some s1 \<Rightarrow> UpdateEnds fuel mus s1)"

text \<open>Running a list of calls in turn, as long as each returns. \<open>noerr\<close> is a call that
  must return without an error, \<open>call\<close> one whose result is dropped.\<close>

fun run :: "('s \<Rightarrow> 's option) list \<Rightarrow> 's \<Rightarrow> 's option" where
  "run [] s = Some s"
| "run (c # cs) s = (case c s of None \<Rightarrow> None | Some s1 \<Rightarrow> run cs s1)"

definition noerr :: "('s \<Rightarrow> ('e option \<times> 's) option) \<Rightarrow> 's \<Rightarrow> 's option" where
  "noerr c s = (case c s of Some (None, s1) \<Rightarrow> Some s1 | _ \<Rightarrow> None)"

definition call :: "('s \<Rightarrow> ('a \<times> 's) option) \<Rightarrow> 's \<Rightarrow> 's option" where
  "call c s = map_option snd (c s)"

text \<open>The header line that the spec gives for a root of type Demo, and the one with the
  key of \<^verbatim>\<open>JSONTypePrefix\<close>.\<close>

definition spec_header :: string where
  "spec_header =
     ''{'' @ [CHR 0x22] @ ''root-type'' @ [CHR 0x22] @ '': '' @ [CHR 0x22] @ ''Demo''
       @ [CHR 0x22] @ ''}'' @ [CHR 0x0A]"

definition code_header :: string where
  "code_header =
     ''{'' @ [CHR 0x22] @ ''ki.RootType'' @ [CHR 0x22] @ '': '' @ [CHR 0x22] @ ''Demo''
       @ [CHR 0x22] @ ''}'' @ [CHR 0x0A]"

subsection \<open>Relations between states\<close>

text \<open>Two states with the same self-handles, fields and children, and the same nodes
  destroyed.\<close>

definition same_shape :: "'v state \<Rightarrow> 'v state \<Rightarrow> bool" where
  "same_shape s s' =
     (\<forall>k. Ths (heap s' k) = Ths (heap s k) \<and> KiFlds (heap s' k) = KiFlds (heap s k) \<and>
          Kids (heap s' k) = Kids (heap s k) \<and>
          (NodeDestroyed \<in> Flag (heap s' k)) = (NodeDestroyed \<in> Flag (heap s k)))"

text \<open>The flags that an update bracket sets or clears.\<close>

definition bracket_flags :: "flags set" where
  "bracket_flags = insert Updating UpdateFlagsMask"

text \<open>The second state differs from the first at most in flags of the update bracket: every
  name, parent, child list, property map, self-handle and connection is the same, and so is
  the queue of the deletion manager.\<close>

definition same_but_flags :: "'v state \<Rightarrow> 'v state \<Rightarrow> bool" where
  "same_but_flags s s' =
     (Dels s' = Dels s \<and>
      (\<forall>k. heap s' k = (heap s k)\<lparr>Flag := Flag (heap s' k)\<rparr> \<and>
           Flag (heap s' k) - bracket_flags = Flag (heap s k) - bracket_flags))"

text \<open>The same, and nothing was emitted.\<close>

definition quiet :: "'v state \<Rightarrow> 'v state \<Rightarrow> bool" where
  "quiet s s' = (same_but_flags s s' \<and> sigs s' = sigs s)"

text \<open>A root \<open>R\<close> (node 0) with one child \<open>a\<close> (node 1), both initialised.\<close>

definition tree2 :: "unit state" where
  "tree2 =
     \<lparr>heap = (\<lambda>k. node0)
        (0 := node0\<lparr>Nm := ''R'', UniqueNm := ''R'', Kids := [1], Ths := Some 0\<rparr>,
         1 := node0\<lparr>Nm := ''a'', UniqueNm := ''a'', Par := Some 0, Ths := Some 1\<rparr>),
      sigs = [], Dels = []\<rparr>"

text \<open>The two-node tree of the scenario: a root of type Demo with one child \<open>a\<close>.\<close>

definition demo_tree :: "unit state" where
  "demo_tree =
     \<lparr>heap = (\<lambda>k. node0)
        (0 := node0\<lparr>Nm := ''R'', UniqueNm := ''R'', Kids := [1], Ths := Some 0,
                    Typ := ''Demo'', Embeds := [''Node'']\<rparr>,
         1 := node0\<lparr>Nm := ''a'', UniqueNm := ''a'', Par := Some 0, Ths := Some 1\<rparr>),
      sigs = [], Dels = []\<rparr>"

text \<open>A registry that knows the type Demo and allocates node 0 for it, and a decoder that
  rebuilds the tree of the scenario when it is handed the body \<open>b\<close>, without parent
  links: they stand for the codec, which is outside node.go.\<close>

definition demo_new :: "string \<Rightarrow> unit state \<Rightarrow> (ki \<times> unit state) option" where
  "demo_new tn s =
     (if tn = ''Demo''
      then Some (0, upd 0 (\<lambda>nd. node0\<lparr>Typ := ''Demo'', Embeds := [''Node'']\<rparr>) s)
      else None)"

definition demo_unmarshal :: "string \<Rightarrow> string \<Rightarrow> ki \<Rightarrow> unit state \<Rightarrow> bool \<times> unit state" where
  "demo_unmarshal b body root s =
     (if body = b then
        (True, upd 1 (\<lambda>nd. node0\<lparr>Nm := ''a'', UniqueNm := ''a'', Ths := Some 1\<rparr>)
                 (upd root (\<lambda>nd. nd\<lparr>Nm := ''R'', UniqueNm := ''R'', Kids := [1]\<rparr>) s))
      else (False, s))"

text \<open>The tree \<open>tree2\<close> with a child of another type.\<close>

definition tree2t :: "unit state" where
  "tree2t = upd 1 (\<lambda>nd. nd\<lparr>Typ := ''Demo'', Embeds := [''Node'']\<rparr>) tree2"

subsection \<open>Chains of children and fields\<close>

text \<open>A chain of struct fields below the node \<open>p\<close>: each is a field of the one before,
  found under its unique name, which has no path separator.\<close>

fun field_chain :: "ki \<Rightarrow> ki list \<Rightarrow> 'v state \<Rightarrow> bool" where
  "field_chain p [] s = True"
| "field_chain p (f # fs) s =
     (Par (heap s f) = Some p \<and> IsField' f s \<and>
      KiFieldByName p (UniqueName f s) s = Some (Some f) \<and>
      CHR ''/'' \<notin> set (UniqueName f s) \<and> CHR ''.'' \<notin> set (UniqueName f s) \<and>
      field_chain f fs s)"

text \<open>The child \<open>c\<close> is the first child of \<open>p\<close> with its unique name.\<close>

definition first_child :: "ki \<Rightarrow> ki \<Rightarrow> 'v state \<Rightarrow> bool" where
  "first_child p c s =
     (case IndexByUniqueName (Kids (heap s p)) (UniqueName c s) s of
        None \<Rightarrow> False
      | Some idx \<Rightarrow> Kids (heap s p) ! idx = c)"

text \<open>A chain of groups below the node \<open>p\<close>; a group is a tree child followed by a chain
  of fields. The child has a unique name without path separators that is not empty and is
  the first with this name among its siblings.\<close>

fun group_chain :: "ki \<Rightarrow> (ki \<times> ki list) list \<Rightarrow> 'v state \<Rightarrow> bool" where
  "group_chain p [] s = True"
| "group_chain p (g # gs) s =
     (Par (heap s (fst g)) = Some p \<and> \<not> IsField' (fst g) s \<and> first_child p (fst g) s \<and>
      UniqueName (fst g) s \<noteq> [] \<and>
      CHR ''/'' \<notin> set (UniqueName (fst g) s) \<and> CHR ''.'' \<notin> set (UniqueName (fst g) s) \<and>
      field_chain (fst g) (snd g) s \<and>
      group_chain (last (fst g # snd g)) gs s)"

text \<open>The node that a chain of groups leads to, the nodes on it, and the path element of a
  group.\<close>

fun chain_end :: "ki \<Rightarrow> (ki \<times> ki list) list \<Rightarrow> ki" where
  "chain_end p [] = p"
| "chain_end p (g # gs) = chain_end (last (fst g # snd g)) gs"

definition chain_nodes :: "(ki \<times> ki list) list \<Rightarrow> ki list" where
  "chain_nodes gs = concat (map (\<lambda>g. fst g # snd g) gs)"

definition seg :: "(ki \<times> ki list) \<Rightarrow> 'v state \<Rightarrow> string" where
  "seg g s = UniqueName (fst g) s @ concat (map (\<lambda>f. ''.'' @ UniqueName f s) (snd g))"

text \<open>A root \<open>R\<close> with a child \<open>a\<close> whose struct has the Ki-typed field \<open>Sub\<close> (node 2).\<close>

definition tree3 :: "unit state" where
  "tree3 =
     \<lparr>heap = (\<lambda>k. node0)
        (0 := node0\<lparr>Nm := ''R'', UniqueNm := ''R'', Kids := [1], Ths := Some 0\<rparr>,
         1 := node0\<lparr>Nm := ''a'', UniqueNm := ''a'', Par := Some 0, Ths := Some 1,
                    KiFlds := [(''Sub'', 2)], Typ := ''Demo'', Embeds := [''Node'']\<rparr>,
         2 := node0\<lparr>Nm := ''Sub'', UniqueNm := ''Sub'', Flag := {IsField}, Par := Some 1,
                    Ths := Some 2\<rparr>),
      sigs = [], Dels = []\<rparr>"

text \<open>A store in which the struct of node 0 has the Ki-typed field \<open>Sub\<close> (node 1).\<close>

definition root_with_field :: "unit state" where
  "root_with_field =
     state0\<lparr>heap := (\<lambda>k. node0)
        (0 := node0\<lparr>KiFlds := [(''Sub'', 1)], Typ := ''Demo'', Embeds := [''Node'']\<rparr>)\<rparr>"


subsection \<open>The nodes of a subtree\<close>

text \<open>The nodes directly below a node, in the order in which \<^verbatim>\<open>FuncDownMeFirst\<close> visits
  them: the Ki-typed struct fields, then the children.\<close>

definition nodes_below :: "ki \<Rightarrow> 'v state \<Rightarrow> ki list" where
  "nodes_below n s = map snd (KiFlds (heap s n)) @ Kids (heap s n)"

text \<open>The nodes of the subtree of a node down to the depth \<open>d\<close>, the node first.\<close>

fun subtree_nodes :: "nat \<Rightarrow> ki \<Rightarrow> 'v state \<Rightarrow> ki list" where
  "subtree_nodes 0 n s = []"
| "subtree_nodes (Suc d) n s = n # concat (map (\<lambda>c. subtree_nodes d c s) (nodes_below n s))"

text \<open>The nodes that an update bracket on \<open>n\<close> marks as updating: the node alone when it
  updates only itself, and the nodes of its subtree otherwise.\<close>

definition bracket_nodes :: "nat \<Rightarrow> ki \<Rightarrow> 'v state \<Rightarrow> ki list" where
  "bracket_nodes d n s = (if OnlySelfUpdate' n s then [n] else subtree_nodes d n s)"

text \<open>Among the nodes of \<open>S\<close> outside \<open>A\<close>, a node that is updating has only updating nodes
  directly below it.\<close>

definition marking_closed :: "ki set \<Rightarrow> ki set \<Rightarrow> 'v state \<Rightarrow> bool" where
  "marking_closed S A s =
     (\<forall>k \<in> S - A. IsUpdating k s \<longrightarrow> (\<forall>c \<in> set (nodes_below k s). IsUpdating c s))"

text \<open>From the first state to the second only flags of the update bracket change, nothing is
  emitted, and every node that was updating still is.\<close>

definition marks_more :: "'v state \<Rightarrow> 'v state \<Rightarrow> bool" where
  "marks_more s s' = (quiet s s' \<and> (\<forall>k. IsUpdating k s \<longrightarrow> IsUpdating k s'))"

subsection \<open>Trees of plain nodes\<close>

text \<open>A finite tree of nodes without Ki-typed struct fields (plain \<^verbatim>\<open>Node\<close> values), of
  depth at most \<open>d\<close>; a node has its own self-handle or none.\<close>

fun plain_tree :: "nat \<Rightarrow> ki \<Rightarrow> 'v state \<Rightarrow> bool" where
  "plain_tree 0 n s = False"
| "plain_tree (Suc d) n s =
     ((Ths (heap s n) = Some n \<or> Ths (heap s n) = None) \<and> KiFlds (heap s n) = [] \<and>
      (\<forall>c \<in> set (Kids (heap s n)). plain_tree d c s))"

text \<open>From the first state to the second no node gets a field, a child or a self-handle:
  child lists stay or are emptied, self-handles stay or are lost.\<close>

definition shrinks :: "'v state \<Rightarrow> 'v state \<Rightarrow> bool" where
  "shrinks s s' =
     (\<forall>k. KiFlds (heap s' k) = KiFlds (heap s k) \<and>
          (Kids (heap s' k) = Kids (heap s k) \<or> Kids (heap s' k) = []) \<and>
          (Ths (heap s' k) = Ths (heap s k) \<or> Ths (heap s' k) = None))"

text \<open>The same, with the queue of the deletion manager unchanged.\<close>

definition keeps_queue :: "'v state \<Rightarrow> 'v state \<Rightarrow> bool" where
  "keeps_queue s s' = (shrinks s s' \<and> Dels s' = Dels s)"

section \<open>Properties\<close>

subsection \<open>Evaluating scenarios\<close>

lemmas eval_defs =
  run.simps noerr_def call_def InitName_def SetName_def SetUniqueName_def upd_def Replace_def
  UniqueName_def Name_def Parent_def This_def Flags_def
  HasFlag_def SetFlag_def ClearFlag_def SetFlagState_def ClearFlagMask_def UpdateFlagsMask_def
  IsUpdating_def IsField'_def OnlySelfUpdate'_def SetOnlySelfUpdate_def IsDeleted_def
  IsDestroyed_def Emit_def Disconnect_def UniquifyPreserveNameLimit_def UniquifyNames_def
  UpdateStart_fn_def UpdateStart_def UpdateEnd_fn_def UpdateReset_def UpdateSig_def
  DisconnectAll_def SetParent_def IndexOf_def IndexByUniqueName_def IsValidIndex_def
  DeleteAtIndex_def Insert_def ThisCheck_def AddChildCheck_def DeleteChildAtIndex_def
  DeleteChild_def addChildImplPost_def AddChildImpl_def InsertChildImpl_def added_def
  AddChild_def InsertChild_def SetProp_def SetPropUpdate_def Prop_def
  node0_def state0_def Sprintf_d_def itoa.simps Let_def eval_nat_numeral insert_Diff_if

lemma heap_upd: "heap (upd n f s) = (heap s)(n := f (heap s n))"
  by (simp add: upd_def)

lemma sigs_upd: "sigs (upd n f s) = sigs s"
  by (simp add: upd_def)

lemma Dels_upd: "Dels (upd n f s) = Dels s"
  by (simp add: upd_def)


subsection \<open>Replacing one byte\<close>

lemma Replace_go_single:
  "Replace_go [c] new 0 s = concat (map (\<lambda>x. if x = c then new else [x]) s)"
  by (induction s) auto

lemma Replace_single:
  "Replace s [c] new = concat (map (\<lambda>x. if x = c then new else [x]) s)"
  by (simp add: Replace_def Replace_go_single)

lemma Replace_single_notin:
  "c \<notin> set new \<Longrightarrow> c \<notin> set (Replace s [c] new)"
  by (auto simp: Replace_single split: if_splits)

lemma Replace_single_keeps:
  "d \<notin> set s \<Longrightarrow> d \<notin> set new \<Longrightarrow> d \<notin> set (Replace s [c] new)"
  by (auto simp: Replace_single split: if_splits)

lemma Replace_byte:
  "Replace s [c] [u] = map (\<lambda>x. if x = c then u else x) s"
  unfolding Replace_single by (induction s) simp_all

text \<open>
  Claim C9. Whatever name is supplied, the unique name that \<^verbatim>\<open>SetUniqueName\<close> stores is
  the name with every \<^verbatim>\<open>.\<close> and every \<^verbatim>\<open>/\<close> replaced by \<^verbatim>\<open>_\<close> and every other byte kept
  in its place, so it contains neither of the two path separators.
\<close>

theorem SetUniqueName_replaces_separators:
  "UniqueName n (SetUniqueName n name s)
     = map (\<lambda>c. if c = CHR ''.'' \<or> c = CHR ''/'' then CHR ''_'' else c) name \<and>
   CHR ''.'' \<notin> set (UniqueName n (SetUniqueName n name s)) \<and>
   CHR ''/'' \<notin> set (UniqueName n (SetUniqueName n name s))"
proof -
  have e: "UniqueName n (SetUniqueName n name s)
     = map (\<lambda>c. if c = CHR ''.'' \<or> c = CHR ''/'' then CHR ''_'' else c) name"
    by (simp add: UniqueName_def SetUniqueName_def upd_def Replace_byte)
  show ?thesis unfolding e by auto
qed

subsection \<open>Unique names of two children with the same name\<close>

text \<open>
  Claim C6. A root \<open>R\<close> (node 0) without children gets the child \<open>A\<close> (node 1) and then
  the child \<open>B\<close> (node 2), both named \<open>x\<close>: the unique name of \<open>A\<close> stays \<open>x\<close> and
  that of \<open>B\<close> becomes \<open>x_001\<close>.
\<close>

theorem two_children_named_x:
  "map_option (\<lambda>s. (Kids (heap s 0), UniqueName 1 s, UniqueName 2 s))
     (run [InitName 1 0 0 ''R'', InitName 1 1 1 ''x'', InitName 1 2 2 ''x'',
           noerr (AddChild 5 0 1), noerr (AddChild 5 0 2)] (state0 :: unit state))
   = Some ([1, 2], ''x'', ''x_001'')"
  by (simp add: eval_defs)

text \<open>
  Claim C2 fails on the code. Children named \<open>x_002\<close>, \<open>x\<close> and \<open>x\<close> are added in
  this order; the name that \<^verbatim>\<open>UniquifyNames\<close> makes up for the third child is neither
  looked up in the map of the names taken nor entered into it, and the first and the third
  child end with the same unique name \<open>x_002\<close>.
\<close>

theorem UniquifyNames_collision:
  "map_option (\<lambda>s. (Kids (heap s 0), map (\<lambda>k. UniqueName k s) (Kids (heap s 0))))
     (run [InitName 1 0 0 ''R'', InitName 1 1 1 ''x_002'', InitName 1 2 2 ''x'',
           InitName 1 3 3 ''x'', noerr (AddChild 5 0 1), noerr (AddChild 5 0 2),
           noerr (AddChild 5 0 3)] (state0 :: unit state))
   = Some ([1, 2, 3], [''x_002'', ''x'', ''x_002''])"
  by (simp add: eval_defs)

subsection \<open>Setting a property with an update\<close>

text \<open>
  Claim C8, as stated, fails: inside an update bracket \<^verbatim>\<open>SetPropUpdate\<close> emits nothing.
  Here the root has opened a bracket, and the call leaves the trace of emissions empty.
\<close>

theorem SetPropUpdate_silent_in_bracket:
  "map_option (\<lambda>s. (IsUpdating 0 s, sigs s, sigs (SetPropUpdate 0 ''color'' ''red'' s)))
     (run [InitName 1 0 0 ''R'', call (UpdateStart 5 0)] (state0 :: string state))
   = Some (True, [], [])"
  by (simp add: eval_defs)

text \<open>
  Claim C8, amended. For every node, key and value, \<^verbatim>\<open>SetPropUpdate\<close> stores the value
  in the property map of the node and sets \<^verbatim>\<open>PropUpdated\<close>; it emits one updated
  notification on the node, with the flags as data, when the node is neither updating nor
  destroyed, and none otherwise.
\<close>

theorem SetPropUpdate_effect:
  "Prop n key (SetPropUpdate n key val s) = Some val \<and>
   HasFlag n PropUpdated (SetPropUpdate n key val s) \<and>
   sigs (SetPropUpdate n key val s) =
     (if IsUpdating n s \<or> IsDestroyed n s then sigs s
      else sigs s @ [Emission n (Ths (heap s n)) NodeSignalUpdated
                       (Some (insert PropUpdated (Flag (heap s n))))])"
proof -
  let ?s1 = "SetProp n key val (SetFlag n PropUpdated s)"
  have h: "heap ?s1 n = (heap s n)\<lparr>Flag := insert PropUpdated (Flag (heap s n)),
      Props := Some ((case Props (heap s n) of None \<Rightarrow> Map.empty | Some m \<Rightarrow> m)(key \<mapsto> val))\<rparr>"
    by (simp add: SetProp_def SetFlag_def heap_upd)
  have g: "sigs ?s1 = sigs s"
    by (simp add: SetProp_def SetFlag_def sigs_upd)
  have u: "IsUpdating n ?s1 = IsUpdating n s" "IsDestroyed n ?s1 = IsDestroyed n s"
    by (simp_all add: IsUpdating_def IsDestroyed_def HasFlag_def h)
  show ?thesis
    by (simp add: SetPropUpdate_def UpdateSig_def u Emit_def g h Prop_def HasFlag_def
        This_def Flags_def)
qed

subsection \<open>Walking an initialised subtree\<close>

lemma same_shape_refl: "same_shape s s"
  by (simp add: same_shape_def)

lemma same_shape_This: "same_shape s s' \<Longrightarrow> This n s' = This n s"
  by (simp add: same_shape_def This_def IsDestroyed_def HasFlag_def)

lemma tree_ok_shape: "same_shape s s' \<Longrightarrow> tree_ok d n s \<Longrightarrow> tree_ok d n s'"
proof (induction d arbitrary: n)
  case 0
  then show ?case by simp
next
  case (Suc d)
  have k: "Kids (heap s' n) = Kids (heap s n)" "KiFlds (heap s' n) = KiFlds (heap s n)"
    using Suc.prems(1) by (simp_all add: same_shape_def)
  show ?case
    using Suc.prems Suc.IH by (simp add: same_shape_This k)
qed

lemma tree_ok_This: "tree_ok d n s \<Longrightarrow> This n s = Some n"
  by (cases d) simp_all

lemma FuncDown_kids_total:
  assumes P: "\<And>d n s. tree_ok d n s \<Longrightarrow> d \<le> fuel \<Longrightarrow>
               \<exists>b s'. FuncDownMeFirst fuel fn n s = Some (b, s') \<and> R s s'"
    and refl: "\<And>s. R s s"
    and trans: "\<And>a b c. R a b \<Longrightarrow> R b c \<Longrightarrow> R a c"
    and shape: "\<And>a b. R a b \<Longrightarrow> same_shape a b"
    and le: "d \<le> fuel"
  shows "\<forall>c \<in> set cs. tree_ok d c s \<Longrightarrow> \<exists>s'. FuncDown_kids fuel fn cs s = Some s' \<and> R s s'"
proof (induction cs arbitrary: s)
  case Nil
  then show ?case by (simp add: refl)
next
  case (Cons c cs)
  from Cons.prems have "tree_ok d c s" by simp
  from P[OF this le] obtain b s1 where 1: "FuncDownMeFirst fuel fn c s = Some (b, s1)" "R s s1"
    by blast
  have "\<forall>x \<in> set cs. tree_ok d x s1"
    using Cons.prems shape[OF 1(2)] by (auto intro: tree_ok_shape)
  from Cons.IH[OF this] obtain s2 where 2: "FuncDown_kids fuel fn cs s1 = Some s2" "R s1 s2"
    by blast
  show ?case using 1 2 by (auto intro: trans)
qed

lemma FuncDown_fields_total:
  assumes P: "\<And>d n s. tree_ok d n s \<Longrightarrow> d \<le> fuel \<Longrightarrow>
               \<exists>b s'. FuncDownMeFirst fuel fn n s = Some (b, s') \<and> R s s'"
    and refl: "\<And>s. R s s"
    and trans: "\<And>a b c. R a b \<Longrightarrow> R b c \<Longrightarrow> R a c"
    and shape: "\<And>a b. R a b \<Longrightarrow> same_shape a b"
    and le: "d \<le> fuel"
  shows "\<forall>fld \<in> set fs. tree_ok d (snd fld) s \<Longrightarrow>
           \<exists>s'. FuncDown_fields fuel fn fs s = Some s' \<and> R s s'"
proof (induction fs arbitrary: s)
  case Nil
  then show ?case by (simp add: refl)
next
  case (Cons f fs)
  from Cons.prems have t: "tree_ok d (snd f) s" by simp
  from P[OF this le] obtain b s1 where
    1: "FuncDownMeFirst fuel fn (snd f) s = Some (b, s1)" "R s s1"
    by blast
  have "\<forall>x \<in> set fs. tree_ok d (snd x) s1"
    using Cons.prems shape[OF 1(2)] by (auto intro: tree_ok_shape)
  from Cons.IH[OF this] obtain s2 where
    2: "FuncDown_fields fuel fn fs s1 = Some s2" "R s1 s2"
    by blast
  show ?case using 1 2 tree_ok_This[OF t] by (auto intro: trans)
qed

lemma FuncDownMeFirst_total:
  assumes fn: "\<And>k s. \<exists>b s'. fn k s = Some (b, s') \<and> R s s'"
    and refl: "\<And>s. R s s"
    and trans: "\<And>a b c. R a b \<Longrightarrow> R b c \<Longrightarrow> R a c"
    and shape: "\<And>a b. R a b \<Longrightarrow> same_shape a b"
  shows "tree_ok d n s \<Longrightarrow> d \<le> fuel \<Longrightarrow>
           \<exists>b s'. FuncDownMeFirst fuel fn n s = Some (b, s') \<and> R s s'"
proof (induction fuel arbitrary: d n s)
  case 0
  then show ?case by simp
next
  case (Suc fuel)
  from Suc.prems obtain d' where d: "d = Suc d'" "d' \<le> fuel"
    by (cases d) auto
  have thisn: "This n s = Some n" using Suc.prems(1) by (rule tree_ok_This)
  from fn[of n s] obtain b s1 where 1: "fn n s = Some (b, s1)" "R s s1" by blast
  show ?case
  proof (cases b)
    case False
    then show ?thesis using 1 thisn by auto
  next
    case True
    note sh1 = shape[OF 1(2)]
    have this1: "This n s1 = Some n" using thisn sh1 by (simp add: same_shape_This)
    have "tree_ok (Suc d') n s" using Suc.prems(1) d by simp
    from tree_ok_shape[OF sh1 this] have ok1: "tree_ok (Suc d') n s1" .
    then have flds: "\<forall>fld \<in> set (KiFlds (heap s1 n)). tree_ok d' (snd fld) s1" by simp
    have "\<exists>s'. FuncDown_fields fuel fn (KiFlds (heap s1 n)) s1 = Some s' \<and> R s1 s'"
      by (rule FuncDown_fields_total[where R = R and d = d'], (rule Suc.IH; assumption),
          rule refl, (rule trans; assumption), (rule shape; assumption), rule d(2), rule flds)
    then obtain s2 where
      2: "FuncDown_fields fuel fn (KiFlds (heap s1 n)) s1 = Some s2" "R s1 s2"
      by blast
    note sh2 = shape[OF 2(2)]
    from tree_ok_shape[OF sh2 ok1] have "tree_ok (Suc d') n s2" .
    then have kids: "\<forall>c \<in> set (Kids (heap s2 n)). tree_ok d' c s2" by simp
    have "\<exists>s'. FuncDown_kids fuel fn (Kids (heap s2 n)) s2 = Some s' \<and> R s2 s'"
      by (rule FuncDown_kids_total[where R = R and d = d'], (rule Suc.IH; assumption),
          rule refl, (rule trans; assumption), (rule shape; assumption), rule d(2), rule kids)
    then obtain s3 where 3: "FuncDown_kids fuel fn (Kids (heap s2 n)) s2 = Some s3" "R s2 s3"
      by blast
    have "R s s3" using 1(2) 2(2) 3(2) by (blast intro: trans)
    then show ?thesis using 1 True thisn this1 2 3 by auto
  qed
qed

lemma quiet_refl: "quiet s s"
  by (simp add: quiet_def same_but_flags_def)

lemma quiet_trans: "quiet a b \<Longrightarrow> quiet b c \<Longrightarrow> quiet a c"
  unfolding quiet_def same_but_flags_def
  by (metis (no_types, lifting) node.surjective node.update_convs(3))

lemma NodeDestroyed_bracket: "NodeDestroyed \<notin> bracket_flags"
  by (simp add: bracket_flags_def UpdateFlagsMask_def)

lemma quiet_flag_iff:
  "quiet s s' \<Longrightarrow> f \<notin> bracket_flags \<Longrightarrow> (f \<in> Flag (heap s' k)) = (f \<in> Flag (heap s k))"
  unfolding quiet_def same_but_flags_def by blast

lemma quiet_shape: "quiet s s' \<Longrightarrow> same_shape s s'"
  unfolding same_shape_def
proof (intro allI conjI)
  fix k
  assume q: "quiet s s'"
  then have h: "heap s' k = (heap s k)\<lparr>Flag := Flag (heap s' k)\<rparr>"
    by (simp add: quiet_def same_but_flags_def)
  show "Ths (heap s' k) = Ths (heap s k)" by (subst h) simp
  show "KiFlds (heap s' k) = KiFlds (heap s k)" by (subst h) simp
  show "Kids (heap s' k) = Kids (heap s k)" by (subst h) simp
  show "(NodeDestroyed \<in> Flag (heap s' k)) = (NodeDestroyed \<in> Flag (heap s k))"
    using q NodeDestroyed_bracket by (rule quiet_flag_iff)
qed

lemma quiet_flag_change:
  assumes "F - bracket_flags = Flag (heap s n) - bracket_flags"
  shows "quiet s (upd n (\<lambda>nd. nd\<lparr>Flag := F\<rparr>) s)"
  using assms by (simp add: quiet_def same_but_flags_def upd_def)


lemma UpdateEnd_fn_quiet: "\<exists>b s'. UpdateEnd_fn k s = Some (b, s') \<and> quiet s s'"
proof -
  have "ClearFlag k Updating s = upd k (\<lambda>nd. nd\<lparr>Flag := Flag (heap s k) - {Updating}\<rparr>) s"
    by (simp add: ClearFlag_def upd_def)
  moreover have "quiet s \<dots>"
    by (rule quiet_flag_change) (auto simp: bracket_flags_def)
  ultimately show ?thesis by (auto simp: UpdateEnd_fn_def)
qed

lemma walk_quiet:
  assumes "\<And>k s. \<exists>b s'. fn k s = Some (b, s') \<and> quiet s s'"
    and "tree_ok d n s" "d \<le> fuel"
  shows "\<exists>b s'. FuncDownMeFirst fuel fn n s = Some (b, s') \<and> quiet s s'"
  by (rule FuncDownMeFirst_total[where R = quiet and d = d], rule assms(1), rule quiet_refl,
      (rule quiet_trans; assumption), (rule quiet_shape; assumption), rule assms(2),
      rule assms(3))


lemma DestroyDeleted_empty: "Dels s = [] \<Longrightarrow> DestroyDeleted (Suc fuel) s = Some s"
  by simp

lemma quiet_This: "quiet s s' \<Longrightarrow> This n s' = This n s"
  by (rule same_shape_This) (rule quiet_shape)

lemma UpdateEnd_emits:
  assumes ok: "tree_ok d n s" and le: "d < fuel" and dels: "Dels s = []"
    and nd: "\<not> IsDeleted n s"
  shows "\<exists>s'. UpdateEnd fuel n True s = Some s' \<and> same_but_flags s s' \<and>
           sigs s' = sigs s @ [Emission n (Some n) NodeSignalUpdated (Some (Flags n s'))]"
proof -
  from ok have d0: "0 < d" by (cases d) auto
  with le obtain f where fuel: "fuel = Suc (Suc f)" "d \<le> Suc f"
    by (cases fuel; cases "fuel - 1") auto
  have thisn: "This n s = Some n" using ok by (rule tree_ok_This)
  then have ndes: "\<not> IsDestroyed n s" by (auto simp: This_def)
  have drain: "(if HasFlag n ChildDeleted s \<or> HasFlag n ChildrenDeleted s
                then DestroyDeleted (Suc f) s else Some s) = Some s"
    using dels by simp
  show ?thesis
  proof (cases "OnlySelfUpdate' n s")
    case True
    let ?s2 = "ClearFlag n Updating s"
    have e: "ClearFlag n Updating s = upd n (\<lambda>nd. nd\<lparr>Flag := Flag (heap s n) - {Updating}\<rparr>) s"
      by (simp add: ClearFlag_def upd_def)
    have q: "quiet s ?s2"
      unfolding e by (rule quiet_flag_change) (auto simp: bracket_flags_def)
    have u: "UpdateEnd fuel n True s =
          Some (Emit n (This n ?s2) NodeSignalUpdated (Some (Flags n ?s2)) ?s2)"
      unfolding fuel UpdateEnd.simps drain using nd ndes True by (simp add: Let_def)
    show ?thesis
      unfolding u using q thisn quiet_This[OF q, of n]
      by (simp add: Emit_def quiet_def same_but_flags_def Flags_def)
  next
    case False
    from walk_quiet[of UpdateEnd_fn, OF UpdateEnd_fn_quiet ok fuel(2)]
    obtain b s2 where w: "FuncDownMeFirst (Suc f) UpdateEnd_fn n s = Some (b, s2)" "quiet s s2"
      by blast
    have u: "UpdateEnd fuel n True s =
          Some (Emit n (This n s2) NodeSignalUpdated (Some (Flags n s2)) s2)"
      unfolding fuel UpdateEnd.simps drain using nd ndes False w by simp
    show ?thesis
      unfolding u using w(2) thisn quiet_This[OF w(2), of n]
      by (simp add: Emit_def quiet_def same_but_flags_def Flags_def)
  qed
qed

subsection \<open>Nested update brackets\<close>

lemma UpdateEnds_false:
  assumes "0 < fuel" "\<forall>mu \<in> set mus. \<not> snd mu"
  shows "UpdateEnds fuel mus s = Some s"
proof -
  from assms(1) obtain f where f: "fuel = Suc f" by (cases fuel) auto
  show ?thesis using assms(2) unfolding f by (induction mus) auto
qed

lemma zip_replicate_False: "\<forall>mu \<in> set (rev (zip ms (replicate (length ms) False))). \<not> snd mu"
  by (auto simp: set_zip)

lemma quiet_tree_ok: "quiet s s' \<Longrightarrow> tree_ok d n s \<Longrightarrow> tree_ok d n s'"
  by (rule tree_ok_shape) (rule quiet_shape)

lemma marks_more_refl: "marks_more s s"
  by (simp add: marks_more_def quiet_refl)

lemma marks_more_trans: "marks_more a b \<Longrightarrow> marks_more b c \<Longrightarrow> marks_more a c"
  unfolding marks_more_def by (blast intro: quiet_trans)

lemma marks_more_shape: "marks_more s s' \<Longrightarrow> same_shape s s'"
  unfolding marks_more_def by (blast intro: quiet_shape)

lemma nodes_below_shape: "same_shape s s' \<Longrightarrow> nodes_below k s' = nodes_below k s"
  by (simp add: nodes_below_def same_shape_def)

lemma subtree_nodes_shape: "same_shape s s' \<Longrightarrow> subtree_nodes d n s' = subtree_nodes d n s"
  by (induction d arbitrary: n) (simp_all add: nodes_below_shape)

lemma marking_closed_more:
  assumes c: "marking_closed S A s" and m: "marks_more s s'"
    and new: "\<forall>k \<in> S - A. IsUpdating k s' \<longrightarrow> IsUpdating k s"
  shows "marking_closed S A s'"
  unfolding marking_closed_def
proof (intro ballI impI)
  fix k c
  assume k: "k \<in> S - A" "IsUpdating k s'" and c': "c \<in> set (nodes_below k s')"
  from new k have "IsUpdating k s" by blast
  moreover have "c \<in> set (nodes_below k s)"
    using c' nodes_below_shape[OF marks_more_shape[OF m]] by simp
  ultimately have "IsUpdating c s" using c k(1) unfolding marking_closed_def by blast
  then show "IsUpdating c s'" using m unfolding marks_more_def by blast
qed

lemma mark_node:
  assumes "\<not> IsUpdating n s"
  shows "marks_more s (SetFlag n Updating (ClearFlagMask n UpdateFlagsMask s))"
    and "IsUpdating n (SetFlag n Updating (ClearFlagMask n UpdateFlagsMask s))"
    and "k \<noteq> n \<Longrightarrow> IsUpdating k (SetFlag n Updating (ClearFlagMask n UpdateFlagsMask s))
           = IsUpdating k s"
proof -
  let ?s1 = "SetFlag n Updating (ClearFlagMask n UpdateFlagsMask s)"
  have e: "?s1 = upd n (\<lambda>nd. nd\<lparr>Flag := insert Updating (Flag (heap s n) - UpdateFlagsMask)\<rparr>) s"
    by (simp add: SetFlag_def ClearFlagMask_def upd_def)
  have q: "quiet s ?s1"
    unfolding e by (rule quiet_flag_change) (auto simp: bracket_flags_def)
  show "IsUpdating n ?s1" by (simp add: e IsUpdating_def HasFlag_def upd_def)
  show "k \<noteq> n \<Longrightarrow> IsUpdating k ?s1 = IsUpdating k s"
    by (simp add: e IsUpdating_def HasFlag_def upd_def)
  show "marks_more s ?s1"
    unfolding marks_more_def using q by (auto simp: e IsUpdating_def HasFlag_def upd_def)
qed

lemma mark_kids:
  assumes P: "\<And>n (s :: 'v state) A. tree_ok d n s \<Longrightarrow> marking_closed S A s \<Longrightarrow>
               \<exists>b s'. FuncDownMeFirst fuel UpdateStart_fn n s = Some (b, s') \<and> marks_more s s' \<and>
                 IsUpdating n s' \<and> marking_closed S A s'"
  shows "\<forall>c \<in> set cs. tree_ok d c (s :: 'v state) \<Longrightarrow> marking_closed S A s \<Longrightarrow>
           \<exists>s'. FuncDown_kids fuel UpdateStart_fn cs s = Some s' \<and> marks_more s s' \<and>
             (\<forall>c \<in> set cs. IsUpdating c s') \<and> marking_closed S A s'"
proof (induction cs arbitrary: s)
  case Nil
  then show ?case by (simp add: marks_more_refl)
next
  case (Cons c cs)
  from Cons.prems have "tree_ok d c s" by simp
  from P[OF this Cons.prems(2)] obtain b s1 where
    1: "FuncDownMeFirst fuel UpdateStart_fn c s = Some (b, s1)" "marks_more s s1"
       "IsUpdating c s1" "marking_closed S A s1"
    by blast
  have "\<forall>x \<in> set cs. tree_ok d x s1"
    using Cons.prems(1) marks_more_shape[OF 1(2)] by (auto intro: tree_ok_shape)
  from Cons.IH[OF this 1(4)] obtain s2 where
    2: "FuncDown_kids fuel UpdateStart_fn cs s1 = Some s2" "marks_more s1 s2"
       "\<forall>c \<in> set cs. IsUpdating c s2" "marking_closed S A s2"
    by blast
  have "IsUpdating c s2" using 1(3) 2(2) unfolding marks_more_def by blast
  then show ?case using 1 2 by (auto intro: marks_more_trans)
qed

lemma mark_fields:
  assumes P: "\<And>n (s :: 'v state) A. tree_ok d n s \<Longrightarrow> marking_closed S A s \<Longrightarrow>
               \<exists>b s'. FuncDownMeFirst fuel UpdateStart_fn n s = Some (b, s') \<and> marks_more s s' \<and>
                 IsUpdating n s' \<and> marking_closed S A s'"
  shows "\<forall>f \<in> set fs. tree_ok d (snd f) (s :: 'v state) \<Longrightarrow> marking_closed S A s \<Longrightarrow>
           \<exists>s'. FuncDown_fields fuel UpdateStart_fn fs s = Some s' \<and> marks_more s s' \<and>
             (\<forall>f \<in> set fs. IsUpdating (snd f) s') \<and> marking_closed S A s'"
proof (induction fs arbitrary: s)
  case Nil
  then show ?case by (simp add: marks_more_refl)
next
  case (Cons f fs)
  from Cons.prems have t: "tree_ok d (snd f) s" by simp
  from P[OF this Cons.prems(2)] obtain b s1 where
    1: "FuncDownMeFirst fuel UpdateStart_fn (snd f) s = Some (b, s1)" "marks_more s s1"
       "IsUpdating (snd f) s1" "marking_closed S A s1"
    by blast
  have "\<forall>x \<in> set fs. tree_ok d (snd x) s1"
    using Cons.prems(1) marks_more_shape[OF 1(2)] by (auto intro: tree_ok_shape)
  from Cons.IH[OF this 1(4)] obtain s2 where
    2: "FuncDown_fields fuel UpdateStart_fn fs s1 = Some s2" "marks_more s1 s2"
       "\<forall>f \<in> set fs. IsUpdating (snd f) s2" "marking_closed S A s2"
    by blast
  have "IsUpdating (snd f) s2" using 1(3) 2(2) unfolding marks_more_def by blast
  then show ?case using 1 2 tree_ok_This[OF t] by (auto intro: marks_more_trans)
qed

lemma mark_walk:
  "tree_ok d n (s :: 'v state) \<Longrightarrow> d \<le> fuel \<Longrightarrow> marking_closed S A s \<Longrightarrow>
     \<exists>b s'. FuncDownMeFirst fuel UpdateStart_fn n s = Some (b, s') \<and> marks_more s s' \<and>
       IsUpdating n s' \<and> marking_closed S A s'"
proof (induction fuel arbitrary: d n s A)
  case 0
  then show ?case by simp
next
  case (Suc fuel)
  from Suc.prems obtain d' where d: "d = Suc d'" "d' \<le> fuel"
    by (cases d) auto
  have thisn: "This n s = Some n" using Suc.prems(1) by (rule tree_ok_This)
  show ?case
  proof (cases "IsUpdating n s")
    case True
    then show ?thesis
      using thisn Suc.prems(3) by (auto simp: UpdateStart_fn_def marks_more_refl)
  next
    case False
    let ?s1 = "SetFlag n Updating (ClearFlagMask n UpdateFlagsMask s)"
    note m1 = mark_node[OF False]
    have f1: "UpdateStart_fn n s = Some (True, ?s1)" using False by (simp add: UpdateStart_fn_def)
    note sh1 = marks_more_shape[OF m1(1)]
    have this1: "This n ?s1 = Some n" using thisn sh1 by (simp add: same_shape_This)
    have IH: "\<exists>b s'. FuncDownMeFirst fuel UpdateStart_fn k t = Some (b, s') \<and> marks_more t s' \<and>
                 IsUpdating k s' \<and> marking_closed S B s'"
      if "tree_ok d' k t" "marking_closed S B t" for k and t :: "'v state" and B
      using that(1) d(2) that(2) by (rule Suc.IH)
    have c1: "marking_closed S (insert n A) ?s1"
    proof (rule marking_closed_more[OF _ m1(1)])
      show "marking_closed S (insert n A) s"
        using Suc.prems(3) unfolding marking_closed_def by blast
      show "\<forall>k \<in> S - insert n A. IsUpdating k ?s1 \<longrightarrow> IsUpdating k s"
        using m1(3) by auto
    qed
    have "tree_ok (Suc d') n s" using Suc.prems(1) d by simp
    from tree_ok_shape[OF sh1 this] have ok1: "tree_ok (Suc d') n ?s1" .
    then have flds: "\<forall>f \<in> set (KiFlds (heap ?s1 n)). tree_ok d' (snd f) ?s1" by simp
    from mark_fields[where S = S and d = d' and fuel = fuel, OF IH flds c1]
    obtain s2 where
      2: "FuncDown_fields fuel UpdateStart_fn (KiFlds (heap ?s1 n)) ?s1 = Some s2"
         "marks_more ?s1 s2" "\<forall>f \<in> set (KiFlds (heap ?s1 n)). IsUpdating (snd f) s2"
         "marking_closed S (insert n A) s2"
      by blast
    note sh2 = marks_more_shape[OF 2(2)]
    from tree_ok_shape[OF sh2 ok1] have "tree_ok (Suc d') n s2" .
    then have kids: "\<forall>c \<in> set (Kids (heap s2 n)). tree_ok d' c s2" by simp
    from mark_kids[where S = S and d = d' and fuel = fuel, OF IH kids 2(4)]
    obtain s3 where
      3: "FuncDown_kids fuel UpdateStart_fn (Kids (heap s2 n)) s2 = Some s3"
         "marks_more s2 s3" "\<forall>c \<in> set (Kids (heap s2 n)). IsUpdating c s3"
         "marking_closed S (insert n A) s3"
      by blast
    note sh3 = marks_more_shape[OF 3(2)]
    have m: "marks_more s s3" using m1(1) 2(2) 3(2) by (blast intro: marks_more_trans)
    have un: "IsUpdating n s3" using m1(2) 2(2) 3(2) unfolding marks_more_def by blast
    have fl3: "\<forall>f \<in> set (KiFlds (heap ?s1 n)). IsUpdating (snd f) s3"
      using 2(3) 3(2) unfolding marks_more_def by blast
    have b3: "nodes_below n s3 = map snd (KiFlds (heap ?s1 n)) @ Kids (heap s2 n)"
      using sh2 sh3 by (simp add: nodes_below_def same_shape_def)
    have all: "\<forall>c \<in> set (nodes_below n s3). IsUpdating c s3"
      unfolding b3 using fl3 3(3) by auto
    have c3: "marking_closed S A s3"
      unfolding marking_closed_def
    proof (intro ballI impI)
      fix k c
      assume k: "k \<in> S - A" "IsUpdating k s3" and c: "c \<in> set (nodes_below k s3)"
      show "IsUpdating c s3"
      proof (cases "k = n")
        case True
        then show ?thesis using all c by blast
      next
        case False
        then have "k \<in> S - insert n A" using k(1) by blast
        then show ?thesis using 3(4) k(2) c unfolding marking_closed_def by blast
      qed
    qed
    show ?thesis
      using thisn f1 this1 2(1) 3(1) m un c3 by auto
  qed
qed

lemma marked_subtree:
  "marking_closed S {} s \<Longrightarrow> set (subtree_nodes d n s) \<subseteq> S \<Longrightarrow> IsUpdating n s \<Longrightarrow>
     m \<in> set (subtree_nodes d n s) \<Longrightarrow> IsUpdating m s"
proof (induction d arbitrary: n)
  case 0
  then show ?case by simp
next
  case (Suc d)
  show ?case
  proof (cases "m = n")
    case True
    then show ?thesis using Suc.prems(3) by simp
  next
    case False
    with Suc.prems(4) obtain c where
      c: "c \<in> set (nodes_below n s)" "m \<in> set (subtree_nodes d c s)"
      by auto
    have "n \<in> S" using Suc.prems(2) by simp
    then have uc: "IsUpdating c s"
      using Suc.prems(1,3) c(1) unfolding marking_closed_def by blast
    have "set (subtree_nodes d c s) \<subseteq> S" using Suc.prems(2) c(1) by auto
    from Suc.IH[OF Suc.prems(1) this uc c(2)] show ?thesis .
  qed
qed

lemma UpdateStart_marks:
  assumes ok: "tree_ok d n s" and le: "d \<le> fuel"
    and nu: "\<forall>k \<in> set (bracket_nodes d n s). \<not> IsUpdating k s"
  shows "\<exists>s1. UpdateStart fuel n s = Some (True, s1) \<and> quiet s s1 \<and>
           (\<forall>m \<in> set (bracket_nodes d n s). IsUpdating m s1)"
proof -
  from ok obtain d' where d: "d = Suc d'" by (cases d) auto
  have nin: "n \<in> set (bracket_nodes d n s)" by (simp add: bracket_nodes_def d)
  with nu have nun: "\<not> IsUpdating n s" by blast
  have "This n s = Some n" using ok by (rule tree_ok_This)
  then have ndes: "\<not> IsDestroyed n s" by (auto simp: This_def)
  show ?thesis
  proof (cases "OnlySelfUpdate' n s")
    case True
    let ?s1 = "SetFlag n Updating s"
    have e: "?s1 = upd n (\<lambda>nd. nd\<lparr>Flag := insert Updating (Flag (heap s n))\<rparr>) s"
      by (simp add: SetFlag_def upd_def)
    have "quiet s ?s1"
      unfolding e by (rule quiet_flag_change) (auto simp: bracket_flags_def)
    moreover have "IsUpdating n ?s1" by (simp add: e IsUpdating_def HasFlag_def upd_def)
    ultimately show ?thesis
      using True nun ndes by (simp add: UpdateStart_def bracket_nodes_def)
  next
    case False
    let ?S = "set (subtree_nodes d n s)"
    have c: "marking_closed ?S {} s"
      using nu False by (simp add: marking_closed_def bracket_nodes_def)
    from mark_walk[OF ok le c] obtain b s1 where
      w: "FuncDownMeFirst fuel UpdateStart_fn n s = Some (b, s1)" "marks_more s s1"
         "IsUpdating n s1" "marking_closed ?S {} s1"
      by blast
    have st: "subtree_nodes d n s1 = subtree_nodes d n s"
      using marks_more_shape[OF w(2)] by (rule subtree_nodes_shape)
    have "IsUpdating m s1" if "m \<in> ?S" for m
      using w(4) _ w(3) by (rule marked_subtree[where d = d]) (simp_all add: st that)
    then show ?thesis
      using False nun ndes w(1,2) by (simp add: UpdateStart_def bracket_nodes_def marks_more_def)
  qed
qed

lemma UpdateStarts_marked:
  "\<forall>m \<in> set ms. IsUpdating m s \<Longrightarrow>
     UpdateStarts fuel ms s = Some (replicate (length ms) False, s)"
  by (induction ms) (simp_all add: UpdateStart_def)

text \<open>
  Claim C1, as stated, fails. The child \<open>c\<close> (node 1) updates only itself and has been
  deleted from its parent without being destroyed: it is neither destroyed nor updating.
  Three nested brackets on it yield the tokens true, false, false, and closing them in the
  reverse order emits nothing, since \<^verbatim>\<open>UpdateEnd\<close> returns at once on a deleted node.
\<close>

theorem bracket_on_deleted_node_silent:
  "map_option
     (\<lambda>s. (IsDestroyed 1 s, IsUpdating 1 s,
           map_option
             (\<lambda>(us, s1). (us, map_option (\<lambda>s2. drop (length (sigs s)) (sigs s2))
                                 (UpdateEnds 5 (rev (zip [1, 1, 1] us)) s1)))
             (UpdateStarts 5 [1, 1, 1] s)))
     (run [InitName 1 0 0 ''R'', InitName 1 1 1 ''c'', Some \<circ> SetOnlySelfUpdate 1,
           noerr (AddChild 5 0 1), call (DeleteChild 5 0 1 False)] (state0 :: unit state))
   = Some (False, False, Some ([True, False, False], Some []))"
  by (simp add: eval_defs)

text \<open>
  A bracket on a node that updates only itself does not reach its children. The root \<open>R\<close>
  updates only itself; a bracket on the root and a nested one on its child \<open>c\<close> both
  yield a true token, and closing the two emits two notifications.
\<close>

lemma only_self_update_bracket_leaves_children:
  "map_option
     (\<lambda>s. map_option
             (\<lambda>(us, s1). (us, map_option (\<lambda>s2. drop (length (sigs s)) (sigs s2))
                                 (UpdateEnds 5 (rev (zip [0, 1] us)) s1)))
             (UpdateStarts 5 [0, 1] s))
     (run [InitName 1 0 0 ''R'', InitName 1 1 1 ''c'', Some \<circ> SetOnlySelfUpdate 0,
           noerr (AddChild 5 0 1)] (state0 :: unit state))
   = Some (Some ([True, True],
       Some [Emission 1 (Some 1) NodeSignalUpdated (Some {}),
             Emission 0 (Some 0) NodeSignalUpdated (Some {ChildAdded, OnlySelfUpdate})]))"
  by (simp add: eval_defs)

text \<open>
  Claim C1, amended. Let the subtree of \<open>n\<close> be initialised and finite, \<open>n\<close> not deleted
  (nor destroyed), the queue of the deletion manager empty, and let none of the nodes that
  a bracket on \<open>n\<close> marks be updating: \<open>n\<close> alone when it updates only itself, the nodes of
  its subtree otherwise. Then \<^verbatim>\<open>UpdateStart\<close> on \<open>n\<close> returns a true token and emits
  nothing; nested \<^verbatim>\<open>UpdateStart\<close> calls on any of the marked nodes, in any order and number,
  all return false tokens and change nothing, and closing them in the reverse order changes
  and emits nothing; the outermost \<^verbatim>\<open>UpdateEnd\<close> on \<open>n\<close> then emits exactly one updated
  notification, on \<open>n\<close>.
\<close>

theorem nested_brackets_one_notification:
  assumes ok: "tree_ok d n s" and le: "d < fuel"
    and nu: "\<forall>k \<in> set (bracket_nodes d n s). \<not> IsUpdating k s"
    and nd: "\<not> IsDeleted n s" and dels: "Dels s = []"
  shows "\<exists>s1. UpdateStart fuel n s = Some (True, s1) \<and> sigs s1 = sigs s \<and>
           (\<forall>ms. set ms \<subseteq> set (bracket_nodes d n s) \<longrightarrow>
              UpdateStarts fuel ms s1 = Some (replicate (length ms) False, s1) \<and>
              UpdateEnds fuel (rev (zip ms (replicate (length ms) False))) s1 = Some s1) \<and>
           (\<exists>s3. UpdateEnd fuel n True s1 = Some s3 \<and>
              sigs s3 = sigs s @ [Emission n (Some n) NodeSignalUpdated (Some (Flags n s3))])"
proof -
  from le have dle: "d \<le> fuel" by simp
  from UpdateStart_marks[OF ok dle nu] obtain s1 where
    1: "UpdateStart fuel n s = Some (True, s1)" "quiet s s1"
       "\<forall>m \<in> set (bracket_nodes d n s). IsUpdating m s1"
    by blast
  have ok1: "tree_ok d n s1" using 1(2) ok by (rule quiet_tree_ok)
  have dels1: "Dels s1 = []" using 1(2) dels by (simp add: quiet_def same_but_flags_def)
  have "NodeDeleted \<notin> bracket_flags" by (simp add: bracket_flags_def UpdateFlagsMask_def)
  from quiet_flag_iff[OF 1(2) this, of n] nd have nd1: "\<not> IsDeleted n s1"
    by (simp add: IsDeleted_def HasFlag_def)
  from UpdateEnd_emits[OF ok1 le dels1 nd1] obtain s3 where
    3: "UpdateEnd fuel n True s1 = Some s3"
       "sigs s3 = sigs s1 @ [Emission n (Some n) NodeSignalUpdated (Some (Flags n s3))]"
    by blast
  have sg: "sigs s1 = sigs s" using 1(2) by (simp add: quiet_def)
  from le have pos: "0 < fuel" by simp
  have inner: "UpdateStarts fuel ms s1 = Some (replicate (length ms) False, s1) \<and>
               UpdateEnds fuel (rev (zip ms (replicate (length ms) False))) s1 = Some s1"
    if "set ms \<subseteq> set (bracket_nodes d n s)" for ms
  proof
    have "\<forall>m \<in> set ms. IsUpdating m s1" using that 1(3) by blast
    then show "UpdateStarts fuel ms s1 = Some (replicate (length ms) False, s1)"
      by (rule UpdateStarts_marked)
    show "UpdateEnds fuel (rev (zip ms (replicate (length ms) False))) s1 = Some s1"
      using pos zip_replicate_False by (rule UpdateEnds_false)
  qed
  have e: "\<exists>s3. UpdateEnd fuel n True s1 = Some s3 \<and>
              sigs s3 = sigs s @ [Emission n (Some n) NodeSignalUpdated (Some (Flags n s3))]"
    using 3 sg by simp
  show ?thesis
    by (intro exI[of _ s1] conjI allI impI 1(1) sg e;
        (rule inner[THEN conjunct1] inner[THEN conjunct2]; assumption))
qed

text \<open>The theorem at the root of \<open>tree2\<close>, with nested brackets on the root, the child and
  the root again.\<close>

theorem nested_brackets_witness:
  "tree_ok 2 0 tree2 \<and> bracket_nodes 2 0 tree2 = [0, 1] \<and>
   \<not> IsUpdating 0 tree2 \<and> \<not> IsUpdating 1 tree2 \<and> \<not> IsDeleted 0 tree2 \<and> Dels tree2 = [] \<and>
   (\<exists>s1. UpdateStart 5 0 tree2 = Some (True, s1) \<and> sigs s1 = sigs tree2 \<and>
      UpdateStarts 5 [0, 1, 0] s1 = Some ([False, False, False], s1) \<and>
      UpdateEnds 5 [(0, False), (1, False), (0, False)] s1 = Some s1 \<and>
      (\<exists>s3. UpdateEnd 5 0 True s1 = Some s3 \<and>
         sigs s3 = sigs tree2 @ [Emission 0 (Some 0) NodeSignalUpdated (Some (Flags 0 s3))]))"
proof -
  have b: "bracket_nodes 2 0 tree2 = [0, 1]"
    by (simp add: bracket_nodes_def nodes_below_def tree2_def eval_defs)
  have h: "tree_ok 2 0 tree2" "(2::nat) < 5"
    "\<forall>k \<in> set (bracket_nodes 2 0 tree2). \<not> IsUpdating k tree2"
    "\<not> IsDeleted 0 tree2" "Dels tree2 = []"
    unfolding b by (simp_all add: tree2_def eval_defs)
  from nested_brackets_one_notification[OF h] obtain s1 where
    1: "UpdateStart 5 0 tree2 = Some (True, s1)" "sigs s1 = sigs tree2"
       "\<forall>ms. set ms \<subseteq> set (bracket_nodes 2 0 tree2) \<longrightarrow>
          UpdateStarts 5 ms s1 = Some (replicate (length ms) False, s1) \<and>
          UpdateEnds 5 (rev (zip ms (replicate (length ms) False))) s1 = Some s1"
       "\<exists>s3. UpdateEnd 5 0 True s1 = Some s3 \<and>
          sigs s3 = sigs tree2 @ [Emission 0 (Some 0) NodeSignalUpdated (Some (Flags 0 s3))]"
    by blast
  from 1(3)[rule_format, of "[0, 1, 0]"] have
    2: "UpdateStarts 5 [0, 1, 0] s1 = Some ([False, False, False], s1)"
       "UpdateEnds 5 [(0, False), (1, False), (0, False)] s1 = Some s1"
    unfolding b by (simp_all add: eval_nat_numeral)
  have u: "\<not> IsUpdating 0 tree2" "\<not> IsUpdating 1 tree2" using h(3) unfolding b by simp_all
  show ?thesis
    using h(1,4,5) b u 1(1,2,4) 2 by blast
qed

subsection \<open>Adding an ancestor as a child\<close>







lemma PathUnique_chain:
  "ParentChain d n s = Some ch \<Longrightarrow> d \<le> fuel \<Longrightarrow> \<exists>p. PathUnique fuel n s = Some p"
proof (induction d arbitrary: n ch fuel)
  case 0
  then show ?case by simp
next
  case (Suc d)
  from Suc.prems(2) obtain f where f: "fuel = Suc f" "d \<le> f" by (cases fuel) auto
  show ?case
  proof (cases "Par (heap s n)")
    case None
    then show ?thesis by (simp add: f)
  next
    case (Some p)
    with Suc.prems(1) obtain ch' where "ParentChain d p s = Some ch'"
      by (auto split: option.splits)
    from Suc.IH[OF this f(2)] obtain pp where "PathUnique f p s = Some pp" by blast
    then show ?thesis using Some by (simp add: f)
  qed
qed









subsection \<open>The header line of the JSON encoding\<close>

lemma hdr: "code_header @ b = CHR ''{'' # CHR 0x22 # ''ki.RootType'' @ CHR 0x22 # '': '' @ CHR 0x22 # ''Demo'' @ CHR 0x22 # CHR ''}'' # CHR 0x0A # b"
  by (simp add: code_header_def)

lemma split_demo: "JSON_split (code_header @ b) = Some (''Demo'', b)"
proof -
  have i: "Index (code_header @ b) JSONTypeSuffix = 22"
    by (simp add: hdr Index_def JSONTypeSuffix_def)
  have l: "length JSONTypePrefix = 16" by (simp add: JSONTypePrefix_def)
  have s1: "slice (code_header @ b) 17 22 = Some [CHR ''D'', CHR ''e'', CHR ''m'', CHR ''o'', CHR 0x22]"
    by (simp add: hdr slice_def)
  have lh: "length code_header = 24" by (simp add: code_header_def)
  have s2: "slice (code_header @ b) 24 (int (length code_header) + int (length b)) = Some b"
    by (simp add: slice_def lh)
  have t: "Trim (TrimSpace [CHR ''D'', CHR ''e'', CHR ''m'', CHR ''o'', CHR 0x22]) [CHR 0x22] = ''Demo''"
    by code_simp
  have l2: "length JSONTypeSuffix = 2" by (simp add: JSONTypeSuffix_def)
  show ?thesis
    by (simp add: JSON_split_def Let_def i l l2 s1 s2 t)
qed

lemma pre_demo: "HasPrefix (code_header @ b) JSONTypePrefix"
  by (simp add: hdr HasPrefix_def JSONTypePrefix_def)

lemma write_demo:
  "WriteJSON 5 (\<lambda>indent t s. Inr b) 0 False demo_tree = Some (Inr (code_header @ b))"
  by (simp add: WriteJSON_def ThisCheck_def This_def IsDestroyed_def HasFlag_def demo_tree_def
      node0_def Type_def code_header_def JSONTypePrefix_def)

lemma read_demo:
  "map_option (\<lambda>(r, s). (r, Kids (heap s 0), Name 1 s, Parent 1 s))
     (ReadNewJSON 5 demo_new (demo_unmarshal b) (code_header @ b) state0)
   = Some (Inr 0, [1], ''a'', Some 0)"
  by (simp add: ReadNewJSON_def pre_demo split_demo demo_new_def demo_unmarshal_def
      UnmarshalPost_def ParentAllChildren_def SetPtrsFmPaths_def IsRoot_def eval_defs)

text \<open>
  Claim C5, as stated, fails. For the two-node tree whose root has the type Demo, the bytes
  that \<^verbatim>\<open>WriteJSON\<close> writes do not start with the line of the spec, whose key is
  \<^verbatim>\<open>root-type\<close>: they start with the line whose key is \<^verbatim>\<open>ki.RootType\<close>, the constant
  \<^verbatim>\<open>JSONTypePrefix\<close>.
\<close>

theorem WriteJSON_header_differs:
  "map_option
     (map_sum id (\<lambda>out. (take (length spec_header) out = spec_header,
                          take (length code_header) out = code_header)))
     (WriteJSON 5 (\<lambda>indent t s. Inr ''{}'') 0 False demo_tree)
   = Some (Inr (False, True))"
  by (simp add: write_demo) (simp add: spec_header_def code_header_def)

text \<open>
  Claim C5, amended. Encoding the two-node tree whose root has the type Demo yields the line
  \<^verbatim>\<open>{"ki.RootType": "Demo"}\<close> and a newline, followed by the body \<open>b\<close> of the encoder.
  \<^verbatim>\<open>ReadNewJSON\<close> cuts the type name Demo and the same body \<open>b\<close> out of these bytes, and
  once the decoder has rebuilt the child list from the body, the root has the one child
  named \<open>a\<close>, whose parent link, which the encoding does not carry, is the root again.
\<close>

theorem JSON_demo_roundtrip:
  "WriteJSON 5 (\<lambda>indent t s. Inr b) 0 False demo_tree = Some (Inr (code_header @ b)) \<and>
   JSON_split (code_header @ b) = Some (''Demo'', b) \<and>
   map_option (\<lambda>(r, s). (r, Kids (heap s 0), Name 1 s, Parent 1 s))
     (ReadNewJSON 5 demo_new (demo_unmarshal b) (code_header @ b) state0)
   = Some (Inr 0, [1], ''a'', Some 0)"
  using write_demo split_demo read_demo by blast

subsection \<open>Copying between nodes of different types\<close>

lemma CopyFrom_mismatch:
  assumes "PathUnique fuel n s = Some mp" "PathUnique fuel fm s = Some fp"
    "Type n s = Some tn" "Type fm s = Some tf" "tn \<noteq> tf"
  shows "CopyFrom fuel raw n (Some fm) s = Some (Some (TypeMismatch mp fp tn tf), s)"
  using assms by (simp add: CopyFrom_def)

lemma CopyFrom_match:
  assumes "Type n s = Type fm s"
  shows "CopyFrom fuel raw n (Some fm) s \<noteq> Some (Some e, s')"
proof (cases "PathUnique fuel n s")
  case None
  then show ?thesis by (simp add: CopyFrom_def)
next
  case mp: (Some mp)
  show ?thesis
  proof (cases "PathUnique fuel fm s")
    case None
    then show ?thesis by (simp add: CopyFrom_def mp)
  next
    case fp: (Some fp)
    show ?thesis
    proof (cases "Type fm s")
      case None
      then show ?thesis using assms by (simp add: CopyFrom_def mp fp)
    next
      case (Some tf)
      then have "Type n s = Some tf" using assms by simp
      then show ?thesis
        using Some by (simp add: CopyFrom_def mp fp Let_def split: option.split prod.split)
    qed
  qed
qed

text \<open>
  Claim C7. Let the destination \<open>n\<close> and the source \<open>fm\<close> have concrete types (each has
  its self-handle) and finite parent chains. If the types differ, \<^verbatim>\<open>CopyFrom\<close> returns the
  type mismatch error and the state is the one before the call, so the children, properties
  and fields of \<open>n\<close> are unchanged; if the types are the same, it returns no error,
  whatever \<^verbatim>\<open>CopyFromRaw\<close> does.
\<close>

theorem CopyFrom_TypeMismatch:
  assumes "ParentChain dn n s = Some chn" "dn \<le> fuel"
    and "ParentChain df fm s = Some chf" "df \<le> fuel"
    and "Type n s = Some tn" "Type fm s = Some tf"
  shows "(tn \<noteq> tf \<longrightarrow>
            (\<exists>mp fp. CopyFrom fuel raw n (Some fm) s = Some (Some (TypeMismatch mp fp tn tf), s))) \<and>
         (tn = tf \<longrightarrow> (\<forall>e s'. CopyFrom fuel raw n (Some fm) s \<noteq> Some (Some e, s')))"
proof -
  from PathUnique_chain[OF assms(1,2)] obtain mp where mp: "PathUnique fuel n s = Some mp"
    by blast
  from PathUnique_chain[OF assms(3,4)] obtain fp where fp: "PathUnique fuel fm s = Some fp"
    by blast
  show ?thesis
    using CopyFrom_mismatch[OF mp fp assms(5,6)] CopyFrom_match[of n s fm fuel raw] assms(5,6)
    by auto
qed

text \<open>The theorem on \<open>tree2t\<close>: from the child to the root the types differ, from the root
  to itself they match.\<close>

theorem CopyFrom_TypeMismatch_witness:
  "ParentChain 1 0 tree2t = Some [0] \<and> ParentChain 2 1 tree2t = Some [1, 0] \<and>
   Type 0 tree2t = Some ''Node'' \<and> Type 1 tree2t = Some ''Demo'' \<and>
   (\<exists>mp fp. CopyFrom 5 (\<lambda>n fm s. Some s) 0 (Some 1) tree2t
              = Some (Some (TypeMismatch mp fp ''Node'' ''Demo''), tree2t)) \<and>
   (\<forall>e s'. CopyFrom 5 (\<lambda>n fm s. Some s) 0 (Some 0) tree2t \<noteq> Some (Some e, s'))"
proof -
  have h: "ParentChain 1 0 tree2t = Some [0]" "(1::nat) \<le> 5"
    "ParentChain 2 1 tree2t = Some [1, 0]" "(2::nat) \<le> 5"
    "Type 0 tree2t = Some ''Node''" "Type 1 tree2t = Some ''Demo''"
    by (simp_all add: tree2t_def tree2_def Type_def eval_defs)
  from CopyFrom_TypeMismatch[OF h(1,2,3,4,5,6), of "\<lambda>n fm s. Some s"]
       CopyFrom_TypeMismatch[OF h(1,2,1,2,5,5), of "\<lambda>n fm s. Some s"]
  show ?thesis using h by simp
qed


subsection \<open>Resolving the unique path of a node\<close>

lemma PathUnique_mono:
  "PathUnique f n s = Some p \<Longrightarrow> f \<le> f' \<Longrightarrow> PathUnique f' n s = Some p"
proof (induction f arbitrary: n p f')
  case 0
  then show ?case by simp
next
  case (Suc f)
  from Suc.prems(2) obtain g where g: "f' = Suc g" "f \<le> g" by (cases f') auto
  show ?case
  proof (cases "Par (heap s n)")
    case None
    then show ?thesis using Suc.prems(1) by (simp add: g)
  next
    case (Some q)
    with Suc.prems(1) obtain pp where pp: "PathUnique f q s = Some pp"
      by (auto split: option.splits)
    from Suc.IH[OF pp g(2)] have "PathUnique g q s = Some pp" .
    then show ?thesis using Suc.prems(1) Some pp by (simp add: g)
  qed
qed

lemma PathUnique_fields:
  "PathUnique f p s = Some pp \<Longrightarrow> field_chain p fs s \<Longrightarrow>
   PathUnique (f + length fs) (last (p # fs)) s
     = Some (pp @ concat (map (\<lambda>x. ''.'' @ UniqueName x s) fs))"
proof (induction fs arbitrary: p pp f)
  case Nil
  then show ?case by simp
next
  case (Cons x fs)
  have "PathUnique (Suc f) x s = Some (pp @ ''.'' @ UniqueName x s)"
    using Cons.prems by (simp add: UniqueName_def)
  from Cons.IH[OF this] Cons.prems(2) show ?case by simp
qed

lemma PathUnique_groups:
  "PathUnique f p s = Some pp \<Longrightarrow> group_chain p gs s \<Longrightarrow>
   PathUnique (f + length (chain_nodes gs)) (chain_end p gs) s
     = Some (pp @ concat (map (\<lambda>g. ''/'' @ seg g s) gs))"
proof (induction gs arbitrary: p pp f)
  case Nil
  then show ?case by (simp add: chain_nodes_def)
next
  case (Cons g gs)
  have 1: "PathUnique (Suc f) (fst g) s = Some (pp @ ''/'' @ UniqueName (fst g) s)"
    using Cons.prems by (simp add: UniqueName_def)
  have fc: "field_chain (fst g) (snd g) s" using Cons.prems(2) by simp
  from PathUnique_fields[OF 1 fc]
  have 2: "PathUnique (Suc f + length (snd g)) (last (fst g # snd g)) s
           = Some (pp @ ''/'' @ seg g s)"
    by (simp add: seg_def)
  have gc: "group_chain (last (fst g # snd g)) gs s" using Cons.prems(2) by simp
  from Cons.IH[OF 2 gc] show ?case
    by (simp add: chain_nodes_def add.assoc)
qed

lemma Split_go_last: "c \<notin> set a \<Longrightarrow> Split_go [c] cur 0 a = [cur @ a]"
  by (induction a arbitrary: cur) auto

lemma Split_go_sep:
  "c \<notin> set a \<Longrightarrow> Split_go [c] cur 0 (a @ c # rest) = (cur @ a) # Split_go [c] [] 0 rest"
  by (induction a arbitrary: cur) auto

lemma Split_go_segs:
  "c \<notin> set a \<Longrightarrow> \<forall>x \<in> set xs. c \<notin> set (f x) \<Longrightarrow>
   Split_go [c] cur 0 (a @ concat (map (\<lambda>x. c # f x) xs)) = (cur @ a) # map f xs"
proof (induction xs arbitrary: cur a)
  case Nil
  then show ?case by (simp add: Split_go_last)
next
  case (Cons x xs)
  have "Split_go [c] cur 0 (a @ c # (f x @ concat (map (\<lambda>x. c # f x) xs)))
        = (cur @ a) # Split_go [c] [] 0 (f x @ concat (map (\<lambda>x. c # f x) xs))"
    using Cons.prems(1) by (rule Split_go_sep)
  moreover have "Split_go [c] [] 0 (f x @ concat (map (\<lambda>x. c # f x) xs)) = ([] @ f x) # map f xs"
    using Cons.prems(2) by (intro Cons.IH) auto
  ultimately show ?case by simp
qed

lemma Contains_char: "Contains xs [c] = (c \<in> set xs)"
  by (induction xs) auto

lemma field_chain_no_slash:
  "field_chain p fs s \<Longrightarrow> \<forall>f \<in> set fs. CHR ''/'' \<notin> set (UniqueName f s) \<and>
     CHR ''.'' \<notin> set (UniqueName f s)"
  by (induction fs arbitrary: p) auto

lemma seg_no_slash:
  assumes "CHR ''/'' \<notin> set (UniqueName (fst g) s)" "field_chain (fst g) (snd g) s"
  shows "CHR ''/'' \<notin> set (seg g s)"
  using assms(1) field_chain_no_slash[OF assms(2)] by (auto simp: seg_def)

lemma group_chain_no_slash:
  "group_chain p gs s \<Longrightarrow> \<forall>g \<in> set gs. CHR ''/'' \<notin> set (seg g s)"
proof (induction gs arbitrary: p)
  case Nil
  then show ?case by simp
next
  case (Cons g gs)
  have "CHR ''/'' \<notin> set (seg g s)" using Cons.prems by (intro seg_no_slash) auto
  moreover have "\<forall>x \<in> set gs. CHR ''/'' \<notin> set (seg x s)"
    using Cons.prems by (intro Cons.IH[of "last (fst g # snd g)"]) simp
  ultimately show ?case by simp
qed

lemma Split_path:
  assumes "CHR ''/'' \<notin> set u" "group_chain p gs s"
  shows "Split (''/'' @ u @ concat (map (\<lambda>g. ''/'' @ seg g s) gs)) ''/''
         = [] # u # map (\<lambda>g. seg g s) gs"
proof -
  have "Split_go ''/'' [] 0 (u @ concat (map (\<lambda>g. CHR ''/'' # seg g s) gs))
        = ([] @ u) # map (\<lambda>g. seg g s) gs"
    using assms(1) group_chain_no_slash[OF assms(2)] by (rule Split_go_segs)
  then show ?thesis by (simp add: Split_def)
qed

lemma Split_seg:
  assumes "CHR ''.'' \<notin> set (UniqueName (fst g) s)" "field_chain (fst g) (snd g) s"
  shows "Split (seg g s) ''.'' = UniqueName (fst g) s # map (\<lambda>f. UniqueName f s) (snd g)"
proof -
  have "Split_go ''.'' [] 0
          (UniqueName (fst g) s @ concat (map (\<lambda>f. CHR ''.'' # UniqueName f s) (snd g)))
        = ([] @ UniqueName (fst g) s) # map (\<lambda>f. UniqueName f s) (snd g)"
    using assms(1) field_chain_no_slash[OF assms(2)] by (intro Split_go_segs) auto
  then show ?thesis by (simp add: Split_def seg_def)
qed

lemma Find_fields_chain:
  "field_chain p fs s \<Longrightarrow>
   Find_fields p (map (\<lambda>f. UniqueName f s) fs) s = Some (Some (last (p # fs)))"
  by (induction fs arbitrary: p) auto

lemma seg_Contains:
  assumes "CHR ''.'' \<notin> set (UniqueName (fst g) s)"
  shows "Contains (seg g s) ''.'' = (snd g \<noteq> [])"
  using assms by (cases "snd g") (auto simp: Contains_char seg_def)

lemma Find_loop_chain:
  "group_chain p gs s \<Longrightarrow> 2 \<le> i \<Longrightarrow>
   Find_loop i p (map (\<lambda>g. seg g s) gs) s = Some (Some (chain_end p gs))"
proof (induction gs arbitrary: p i)
  case Nil
  then show ?case by simp
next
  case (Cons g gs)
  let ?c = "fst g"
  from Cons.prems(1) have
    nm: "UniqueName ?c s \<noteq> []" "CHR ''.'' \<notin> set (UniqueName ?c s)" and
    fc: "field_chain ?c (snd g) s" and
    fst: "first_child p ?c s" and
    gc: "group_chain (last (?c # snd g)) gs s"
    by simp_all
  from fst obtain idx where
    idx: "IndexByUniqueName (Kids (heap s p)) (UniqueName ?c s) s = Some idx"
         "Kids (heap s p) ! idx = ?c"
    by (auto simp: first_child_def split: option.splits)
  have len: "length (seg g s) \<noteq> 0" using nm(1) by (simp add: seg_def)
  have i1: "\<not> i \<le> 1" using Cons.prems(2) by simp
  have rest: "Find_loop (Suc i) (last (?c # snd g)) (map (\<lambda>g. seg g s) gs) s
              = Some (Some (chain_end (last (?c # snd g)) gs))"
    using gc Cons.prems(2) by (intro Cons.IH) simp_all
  show ?case
  proof (cases "snd g = []")
    case True
    then have sg: "seg g s = UniqueName ?c s" by (simp add: seg_def)
    have nc: "\<not> Contains (seg g s) ''.''" using seg_Contains[OF nm(2)] True by simp
    show ?thesis
      using rest True len i1 nc idx by (simp add: sg)
  next
    case False
    have yc: "Contains (seg g s) ''.''" using seg_Contains[OF nm(2)] False by simp
    have sp: "Split (seg g s) ''.'' = UniqueName ?c s # map (\<lambda>f. UniqueName f s) (snd g)"
      using nm(2) fc by (rule Split_seg)
    have ff: "Find_fields ?c (map (\<lambda>f. UniqueName f s) (snd g)) s
              = Some (Some (last (?c # snd g)))"
      using fc by (rule Find_fields_chain)
    show ?thesis
      using rest len i1 yc by (simp add: sp idx ff)
  qed
qed

lemma space_runes_hd: "\<forall>r \<in> set space_runes. r \<noteq> [] \<and> hd r \<noteq> CHR ''/''"
  by (simp add: space_runes_def)

lemma TrimSpace_path:
  assumes "find (\<lambda>x. suffix x (CHR ''/'' # q)) space_runes = None"
  shows "TrimSpace (CHR ''/'' # q) = CHR ''/'' # q"
proof -
  have "\<not> prefix r (CHR ''/'' # q)" if "r \<in> set space_runes" for r
    using space_runes_hd that by (cases r) auto
  then have l: "find (\<lambda>r. prefix r (CHR ''/'' # q)) space_runes = None"
    by (simp add: find_None_iff)
  have 1: "TrimLeftSpace (length (CHR ''/'' # q)) (CHR ''/'' # q) = CHR ''/'' # q"
    using l by simp
  have 2: "TrimRightSpace (length (CHR ''/'' # q)) (CHR ''/'' # q) = CHR ''/'' # q"
    using assms by simp
  show ?thesis unfolding TrimSpace_def Let_def 1 2 ..
qed

lemma Trim_path:
  assumes "last (CHR ''/'' # q) \<noteq> CHR 0x22"
  shows "Trim (CHR ''/'' # q) [CHR 0x22] = CHR ''/'' # q"
proof -
  let ?p = "CHR ''/'' # q"
  have "rev (butlast ?p @ [last ?p]) = last ?p # rev (butlast ?p)" by simp
  moreover have "butlast ?p @ [last ?p] = ?p" by (rule append_butlast_last_id) simp
  ultimately have r: "rev ?p = last ?p # rev (butlast ?p)" by simp
  have 1: "dropWhile (\<lambda>c. c \<in> set [CHR 0x22]) ?p = ?p" by simp
  have 2: "dropWhile (\<lambda>c. c \<in> set [CHR 0x22]) (rev ?p) = rev ?p"
    unfolding r using assms by simp
  show ?thesis unfolding Trim_def 1 2 by simp
qed

text \<open>
  Claim C3, as stated, fails. The child of the root \<open>R\<close> is named \<^verbatim>\<open>a \<close>, with a blank at the
  end; its unique name is the same and its unique path is \<^verbatim>\<open>/R/a \<close>. \<^verbatim>\<open>FindPathUnique\<close> trims
  the white space around the path before it splits it, looks for a child with the unique
  name \<^verbatim>\<open>a\<close> and finds nothing.
\<close>

theorem path_with_trailing_blank_not_found:
  "map_option
     (\<lambda>s. (Kids (heap s 0), UniqueName 1 s, PathUnique 5 1 s,
        map_option (\<lambda>p. FindPathUnique 5 0 p s) (PathUnique 5 1 s)))
     (run [InitName 1 0 0 ''R'', InitName 1 1 1 ''a '', noerr (AddChild 5 0 1)]
        (state0 :: unit state))
   = Some ([1], ''a '', Some ''/R/a '', Some (Some None))"
  by code_simp

text \<open>
  The round trip fails at a struct field of the root as well. The root \<open>R\<close> is initialised
  and its field \<open>Sub\<close> (node 1) with it: the field has the root as parent and the unique path
  \<^verbatim>\<open>/R.Sub\<close>. From the root, \<^verbatim>\<open>FindPathUnique\<close> takes the element \<^verbatim>\<open>R.Sub\<close>, looks for a child
  named \<open>R\<close> among the children of the root, and finds nothing.
\<close>

lemma root_field_path_not_found:
  "map_option
     (\<lambda>s. (Parent 1 s, IsField' 1 s, PathUnique 5 1 s, FindPathUnique 5 0 ''/R.Sub'' s))
     (run [InitName 2 0 0 ''R''] root_with_field)
   = Some (Some 0, True, Some ''/R.Sub'', Some None)"
  by code_simp

text \<open>
  Claim C3, amended. Let the root have no parent and no \<^verbatim>\<open>/\<close> in its unique name, and let
  a node be reached from it by tree children, each possibly followed by struct fields, where
  every child on the way has a unique name that is not empty, has no path separator and is
  the first of that name among its siblings, and every field is found in its owner under its
  unique name. Then the unique path of the node is computed, and if that path does not end
  in a white space rune or a double quote, \<^verbatim>\<open>FindPathUnique\<close> from the root yields the node.
\<close>

theorem FindPathUnique_roundtrip:
  assumes root: "Par (heap s r) = None" "CHR ''/'' \<notin> set (UniqueName r s)"
    and chain: "group_chain r gs s"
    and fuel: "length (chain_nodes gs) < fuel"
  shows "\<exists>p. PathUnique fuel (chain_end r gs) s = Some p \<and>
           (find (\<lambda>x. suffix x p) space_runes = None \<and> last p \<noteq> CHR 0x22 \<longrightarrow>
            FindPathUnique fuel' r p s = Some (Some (chain_end r gs)))"
proof -
  let ?u = "UniqueName r s"
  let ?p = "''/'' @ ?u @ concat (map (\<lambda>g. ''/'' @ seg g s) gs)"
  have "PathUnique 1 r s = Some (''/'' @ ?u)" using root(1) by (simp add: UniqueName_def)
  from PathUnique_groups[OF this chain]
  have "PathUnique (1 + length (chain_nodes gs)) (chain_end r gs) s = Some ?p"
    by (simp only: append_assoc)
  moreover have "1 + length (chain_nodes gs) \<le> fuel" using fuel by simp
  ultimately have pu: "PathUnique fuel (chain_end r gs) s = Some ?p"
    by (rule PathUnique_mono)
  have fd: "FindPathUnique fuel' r ?p s = Some (Some (chain_end r gs))"
    if t: "find (\<lambda>x. suffix x ?p) space_runes = None" "last ?p \<noteq> CHR 0x22"
  proof -
    define q where "q = ?u @ concat (map (\<lambda>g. ''/'' @ seg g s) gs)"
    have p: "?p = CHR ''/'' # q" by (simp add: q_def)
    have "TrimSpace (CHR ''/'' # q) = CHR ''/'' # q"
      using t(1) unfolding p by (rule TrimSpace_path)
    moreover have "Trim (CHR ''/'' # q) [CHR 0x22] = CHR ''/'' # q"
      using t(2) unfolding p by (rule Trim_path)
    ultimately have tr: "Trim (TrimSpace ?p) [CHR 0x22] = ?p"
      unfolding p by simp
    have sp: "Split ?p ''/'' = [] # ?u # map (\<lambda>g. seg g s) gs"
      using root(2) chain by (rule Split_path)
    have l2: "Find_loop (Suc (Suc 0)) r (map (\<lambda>g. seg g s) gs) s
              = Some (Some (chain_end r gs))"
      using chain by (rule Find_loop_chain) simp
    have "Find_loop 0 r ([] # ?u # map (\<lambda>g. seg g s) gs) s = Some (Some (chain_end r gs))"
      using l2 by simp
    then show ?thesis
      unfolding FindPathUnique_def root(1) option.case tr sp .
  qed
  have imp: "find (\<lambda>x. suffix x ?p) space_runes = None \<and> last ?p \<noteq> CHR 0x22 \<longrightarrow>
             FindPathUnique fuel' r ?p s = Some (Some (chain_end r gs))"
  proof (intro impI, elim conjE)
    assume "find (\<lambda>x. suffix x ?p) space_runes = None" "last ?p \<noteq> CHR 0x22"
    then show "FindPathUnique fuel' r ?p s = Some (Some (chain_end r gs))" by (rule fd)
  qed
  show ?thesis by (intro exI[of _ ?p] conjI pu imp)
qed

text \<open>The theorem at the field \<open>Sub\<close> of the child \<open>a\<close> in \<open>tree3\<close>.\<close>

theorem FindPathUnique_roundtrip_witness:
  "Par (heap tree3 0) = None \<and> group_chain 0 [(1, [2])] tree3 \<and>
   PathUnique 5 (chain_end 0 [(1, [2])]) tree3 = Some ''/R/a.Sub'' \<and>
   FindPathUnique 5 0 ''/R/a.Sub'' tree3 = Some (Some 2)"
proof -
  have h: "Par (heap tree3 0) = None" "CHR ''/'' \<notin> set (UniqueName 0 tree3)"
    "group_chain 0 [(1, [2])] tree3" "length (chain_nodes [(1, [2])]) < 5"
    by (simp_all add: tree3_def first_child_def KiFieldByName_def chain_nodes_def eval_defs)
  have pu: "PathUnique 5 (chain_end 0 [(1, [2])]) tree3 = Some ''/R/a.Sub''"
    by (simp add: tree3_def eval_defs)
  have tr: "find (\<lambda>x. suffix x ''/R/a.Sub'') space_runes = None" "last ''/R/a.Sub'' \<noteq> CHR 0x22"
    by (simp_all add: space_runes_def suffix_to_prefix)
  from FindPathUnique_roundtrip[OF h, of 5] pu tr
  have "FindPathUnique 5 0 ''/R/a.Sub'' tree3 = Some (Some (chain_end 0 [(1, [2])]))"
    by auto
  then show ?thesis using h pu by simp
qed

subsection \<open>Destroying a node\<close>

lemma shrinks_refl: "shrinks s s"
  by (simp add: shrinks_def)

lemma shrinks_trans: "shrinks a b \<Longrightarrow> shrinks b c \<Longrightarrow> shrinks a c"
  unfolding shrinks_def by metis

lemma keeps_queue_refl: "keeps_queue s s"
  by (simp add: keeps_queue_def shrinks_refl)

lemma keeps_queue_trans: "keeps_queue a b \<Longrightarrow> keeps_queue b c \<Longrightarrow> keeps_queue a c"
  unfolding keeps_queue_def by (auto intro: shrinks_trans)

lemma plain_tree_shrinks: "shrinks s s' \<Longrightarrow> plain_tree d n s \<Longrightarrow> plain_tree d n s'"
proof (induction d arbitrary: n)
  case 0
  then show ?case by simp
next
  case (Suc d)
  from Suc.prems(1) have
    f: "KiFlds (heap s' n) = KiFlds (heap s n)" and
    k: "Kids (heap s' n) = Kids (heap s n) \<or> Kids (heap s' n) = []" and
    t: "Ths (heap s' n) = Ths (heap s n) \<or> Ths (heap s' n) = None"
    by (simp_all add: shrinks_def)
  have "\<forall>c \<in> set (Kids (heap s' n)). plain_tree d c s'"
    using k Suc.prems Suc.IH by auto
  then show ?case using Suc.prems(2) f t by auto
qed

lemma shrinks_upd:
  assumes "KiFlds (f (heap s k)) = KiFlds (heap s k)"
    and "Kids (f (heap s k)) = Kids (heap s k) \<or> Kids (f (heap s k)) = []"
    and "Ths (f (heap s k)) = Ths (heap s k) \<or> Ths (f (heap s k)) = None"
  shows "keeps_queue s (upd k f s)"
  using assms by (simp add: keeps_queue_def shrinks_def upd_def)

lemma keeps_SetFlag: "keeps_queue s (SetFlag k f s)"
  unfolding SetFlag_def by (rule shrinks_upd) simp_all

lemma keeps_ClearFlag: "keeps_queue s (ClearFlag k f s)"
  unfolding ClearFlag_def by (rule shrinks_upd) simp_all

lemma keeps_ClearFlagMask: "keeps_queue s (ClearFlagMask k m s)"
  unfolding ClearFlagMask_def by (rule shrinks_upd) simp_all

lemma keeps_Emit: "keeps_queue s (Emit k sender sg dat s)"
  by (simp add: Emit_def keeps_queue_def shrinks_def)

lemma keeps_Disconnect: "keeps_queue s (Disconnect k s)"
  unfolding Disconnect_def by (rule shrinks_upd) simp_all

lemma plain_This: "plain_tree d n s \<Longrightarrow> This n s = Some t \<Longrightarrow> t = n"
  by (cases d) (auto simp: This_def split: if_splits)

lemma plain_kids_total:
  assumes P: "\<And>n s. plain_tree d n s \<Longrightarrow> \<exists>b s'. FuncDownMeFirst fuel fn n s = Some (b, s') \<and> R s s'"
    and refl: "\<And>s. R s s"
    and trans: "\<And>a b c. R a b \<Longrightarrow> R b c \<Longrightarrow> R a c"
    and shape: "\<And>a b. R a b \<Longrightarrow> shrinks a b"
  shows "\<forall>c \<in> set cs. plain_tree d c s \<Longrightarrow> \<exists>s'. FuncDown_kids fuel fn cs s = Some s' \<and> R s s'"
proof (induction cs arbitrary: s)
  case Nil
  then show ?case by (simp add: refl)
next
  case (Cons c cs)
  from Cons.prems have "plain_tree d c s" by simp
  from P[OF this] obtain b s1 where 1: "FuncDownMeFirst fuel fn c s = Some (b, s1)" "R s s1"
    by blast
  have "\<forall>x \<in> set cs. plain_tree d x s1"
    using Cons.prems shape[OF 1(2)] by (auto intro: plain_tree_shrinks)
  from Cons.IH[OF this] obtain s2 where 2: "FuncDown_kids fuel fn cs s1 = Some s2" "R s1 s2"
    by blast
  show ?case using 1 2 by (auto intro: trans)
qed

lemma plain_walk_total:
  assumes fn: "\<And>k s. \<exists>b s'. fn k s = Some (b, s') \<and> R s s'"
    and refl: "\<And>s. R s s"
    and trans: "\<And>a b c. R a b \<Longrightarrow> R b c \<Longrightarrow> R a c"
    and shape: "\<And>a b. R a b \<Longrightarrow> shrinks a b"
  shows "plain_tree d n s \<Longrightarrow> d \<le> fuel \<Longrightarrow>
           \<exists>b s'. FuncDownMeFirst fuel fn n s = Some (b, s') \<and> R s s'"
proof (induction fuel arbitrary: d n s)
  case 0
  then show ?case by simp
next
  case (Suc fuel)
  from Suc.prems obtain d' where d: "d = Suc d'" "d' \<le> fuel"
    by (cases d) auto
  show ?case
  proof (cases "This n s")
    case None
    then show ?thesis by (auto simp: refl)
  next
    case (Some t)
    from plain_This[OF Suc.prems(1) Some] have t: "t = n" .
    from fn[of n s] obtain b s1 where 1: "fn n s = Some (b, s1)" "R s s1" by blast
    show ?thesis
    proof (cases b)
      case False
      then show ?thesis using 1 Some t by auto
    next
      case True
      note sh1 = shape[OF 1(2)]
      have "plain_tree (Suc d') n s" using Suc.prems(1) d by simp
      from plain_tree_shrinks[OF sh1 this] have ok1: "plain_tree (Suc d') n s1" .
      have flds: "(case This n s1 of None \<Rightarrow> Some s1
                   | Some t1 \<Rightarrow> FuncDown_fields fuel fn (KiFlds (heap s1 t1)) s1) = Some s1"
      proof (cases "This n s1")
        case None
        then show ?thesis by simp
      next
        case (Some t1)
        from plain_This[OF ok1 Some] have "t1 = n" .
        then show ?thesis using Some ok1 by simp
      qed
      have kids: "\<forall>c \<in> set (Kids (heap s1 n)). plain_tree d' c s1" using ok1 by simp
      have IH: "\<exists>b s'. FuncDownMeFirst fuel fn k s0 = Some (b, s') \<and> R s0 s'"
        if "plain_tree d' k s0" for k s0
        using that d(2) by (rule Suc.IH)
      have "\<exists>s'. FuncDown_kids fuel fn (Kids (heap s1 n)) s1 = Some s' \<and> R s1 s'"
        by (rule plain_kids_total[where R = R and d = d'], (rule IH; assumption), rule refl,
            (rule trans; assumption), (rule shape; assumption), rule kids)
      then obtain s3 where 3: "FuncDown_kids fuel fn (Kids (heap s1 n)) s1 = Some s3" "R s1 s3"
        by blast
      have "R s s3" using 1(2) 3(2) by (rule trans)
      then show ?thesis using 1 True Some t flds 3 by auto
    qed
  qed
qed

lemma plain_walk_keeps:
  assumes "\<And>k s. \<exists>b s'. fn k s = Some (b, s') \<and> keeps_queue s s'"
    and "plain_tree d n s" "d \<le> fuel"
  shows "\<exists>b s'. FuncDownMeFirst fuel fn n s = Some (b, s') \<and> keeps_queue s s'"
  by (rule plain_walk_total[where R = keeps_queue and d = d], rule assms(1),
      rule keeps_queue_refl, (rule keeps_queue_trans; assumption),
      (simp add: keeps_queue_def), rule assms(2), rule assms(3))

lemma UpdateStart_fn_keeps: "\<exists>b s'. UpdateStart_fn k s = Some (b, s') \<and> keeps_queue s s'"
  using keeps_queue_trans[OF keeps_ClearFlagMask keeps_SetFlag]
  by (auto simp: UpdateStart_fn_def keeps_queue_refl)

lemma UpdateEnd_fn_keeps: "\<exists>b s'. UpdateEnd_fn k s = Some (b, s') \<and> keeps_queue s s'"
  by (auto simp: UpdateEnd_fn_def keeps_ClearFlag)

lemma UpdateStart_plain:
  assumes "plain_tree d n s" "d \<le> fuel"
  shows "\<exists>b s'. UpdateStart fuel n s = Some (b, s') \<and> keeps_queue s s'"
proof -
  from plain_walk_keeps[of UpdateStart_fn, OF UpdateStart_fn_keeps assms]
  obtain b s' where "FuncDownMeFirst fuel UpdateStart_fn n s = Some (b, s')" "keeps_queue s s'"
    by blast
  then show ?thesis
    by (auto simp: UpdateStart_def keeps_queue_refl keeps_SetFlag)
qed

lemma UpdateReset_plain:
  assumes "plain_tree d n s" "d \<le> fuel"
  shows "\<exists>s'. UpdateReset fuel n s = Some s' \<and> keeps_queue s s'"
proof -
  from plain_walk_keeps[of UpdateEnd_fn, OF UpdateEnd_fn_keeps assms]
  obtain b s' where "FuncDownMeFirst fuel UpdateEnd_fn n s = Some (b, s')" "keeps_queue s s'"
    by blast
  then show ?thesis
    by (auto simp: UpdateReset_def keeps_ClearFlag)
qed

lemma DisconnectAll_plain:
  assumes "plain_tree d n s" "d \<le> fuel"
  shows "\<exists>s'. DisconnectAll fuel n s = Some s' \<and> keeps_queue s s'"
proof -
  have "\<exists>b s'. (\<lambda>k s'. Some (True, Disconnect k s')) k s = Some (b, s') \<and> keeps_queue s s'"
    for k and s :: "'a state"
    by (auto simp: keeps_Disconnect)
  from plain_walk_keeps[of "\<lambda>k s'. Some (True, Disconnect k s')", OF this assms]
  show ?thesis by (auto simp: DisconnectAll_def)
qed

lemma keeps_shrinks: "keeps_queue s s' \<Longrightarrow> shrinks s s'"
  by (simp add: keeps_queue_def)

lemma keeps_Dels: "keeps_queue s s' \<Longrightarrow> Dels s' = Dels s"
  by (simp add: keeps_queue_def)

lemma SetParent_None: "SetParent fuel c None s = Some (upd c (\<lambda>nd. nd\<lparr>Par := None\<rparr>) s)"
  by (simp add: SetParent_def)

lemma keeps_Par: "keeps_queue s (upd c (\<lambda>nd. nd\<lparr>Par := p\<rparr>) s)"
  by (rule shrinks_upd) simp_all

lemma plain_tree_keeps: "keeps_queue s s' \<Longrightarrow> plain_tree d n s \<Longrightarrow> plain_tree d n s'"
  by (rule plain_tree_shrinks) (rule keeps_shrinks)

lemma DeleteChildren_loop_plain:
  "\<forall>c \<in> set cs. plain_tree d c s \<Longrightarrow> d \<le> fuel \<Longrightarrow>
   \<exists>s'. DeleteChildren_loop fuel cs s = Some s' \<and> keeps_queue s s'"
proof (induction cs arbitrary: s)
  case Nil
  then show ?case by (simp add: keeps_queue_refl)
next
  case (Cons c cs)
  let ?s1 = "Emit c (Some c) NodeSignalDeleting None (SetFlag c NodeDeleted s)"
  let ?s2 = "upd c (\<lambda>nd. nd\<lparr>Par := None\<rparr>) ?s1"
  have k2: "keeps_queue s ?s2"
    by (blast intro: keeps_queue_trans keeps_SetFlag keeps_Emit keeps_Par)
  have "plain_tree d c ?s2" using k2 Cons.prems(1) by (auto intro: plain_tree_keeps)
  from UpdateReset_plain[OF this Cons.prems(2)] obtain s3 where
    3: "UpdateReset fuel c ?s2 = Some s3" "keeps_queue ?s2 s3"
    by blast
  have k3: "keeps_queue s s3" using k2 3(2) by (rule keeps_queue_trans)
  have "\<forall>x \<in> set cs. plain_tree d x s3"
    using k3 Cons.prems(1) by (auto intro: plain_tree_keeps)
  from Cons.IH[OF this Cons.prems(2)] obtain s4 where
    4: "DeleteChildren_loop fuel cs s3 = Some s4" "keeps_queue s3 s4"
    by blast
  have "keeps_queue s s4" using k3 4(2) by (rule keeps_queue_trans)
  then show ?case using 3(1) 4(1) by (simp add: SetParent_None)
qed

lemma Destroy_all_plain:
  assumes T: "\<And>n (s :: 'v state). plain_tree d n s \<Longrightarrow> Dels s = [] \<Longrightarrow>
                \<exists>s'. Destroy g n s = Some s' \<and> shrinks s s' \<and> Dels s' = []"
  shows "\<forall>k \<in> set ks. plain_tree d k (s :: 'v state) \<Longrightarrow> Dels s = [] \<Longrightarrow>
         \<exists>s'. Destroy_all g ks s = Some s' \<and> shrinks s s' \<and> Dels s' = []"
proof (induction ks arbitrary: s)
  case Nil
  then show ?case by (simp add: shrinks_refl)
next
  case (Cons k ks)
  from Cons.prems have "plain_tree d k s" by simp
  from T[OF this Cons.prems(2)] obtain s1 where
    1: "Destroy g k s = Some s1" "shrinks s s1" "Dels s1 = []"
    by blast
  have "\<forall>x \<in> set ks. plain_tree d x s1"
    using 1(2) Cons.prems(1) by (auto intro: plain_tree_shrinks)
  from Cons.IH[OF this 1(3)] obtain s2 where
    2: "Destroy_all g ks s1 = Some s2" "shrinks s1 s2" "Dels s2 = []"
    by blast
  have "shrinks s s2" using 1(2) 2(2) by (rule shrinks_trans)
  then show ?case using 1(1) 2(1,3) by simp
qed

lemma DestroyDeleted_plain:
  assumes T: "\<And>n (s :: 'v state). plain_tree d n s \<Longrightarrow> Dels s = [] \<Longrightarrow>
                \<exists>s'. Destroy g n s = Some s' \<and> shrinks s s' \<and> Dels s' = []"
    and q: "\<forall>k \<in> set (Dels s). plain_tree d k (s :: 'v state)"
  shows "\<exists>s'. DestroyDeleted (Suc g) s = Some s' \<and> shrinks s s' \<and> Dels s' = []"
proof -
  let ?s0 = "s\<lparr>Dels := []\<rparr>"
  have sh: "shrinks s ?s0" by (simp add: shrinks_def)
  have a: "\<forall>k \<in> set (Dels s). plain_tree d k ?s0"
    using q sh by (auto intro: plain_tree_shrinks)
  have b: "Dels ?s0 = []" by simp
  have "\<exists>s'. Destroy_all g (Dels s) ?s0 = Some s' \<and> shrinks ?s0 s' \<and> Dels s' = []"
    by (rule Destroy_all_plain[where d = d], (rule T; assumption), rule a, rule b)
  then obtain s' where "Destroy_all g (Dels s) ?s0 = Some s'" "shrinks ?s0 s'" "Dels s' = []"
    by blast
  then show ?thesis using sh by (auto intro: shrinks_trans)
qed

lemma UpdateEnd_plain:
  assumes T: "\<And>n (s :: 'v state). plain_tree d n s \<Longrightarrow> Dels s = [] \<Longrightarrow>
                \<exists>s'. Destroy g n s = Some s' \<and> shrinks s s' \<and> Dels s' = []"
    and ok: "plain_tree (Suc d) n (s :: 'v state)" and le: "d \<le> g"
    and q: "\<forall>k \<in> set (Dels s). plain_tree d k s"
  shows "\<exists>s'. UpdateEnd (Suc (Suc g)) n updt s = Some s' \<and> shrinks s s' \<and>
              (\<forall>k \<in> set (Dels s'). plain_tree d k s')"
proof (cases "\<not> updt \<or> IsDestroyed n s \<or> IsDeleted n s")
  case True
  then have "UpdateEnd (Suc (Suc g)) n updt s = Some s" by auto
  then show ?thesis using q by (simp add: shrinks_refl)
next
  case False
  have "\<exists>s1. (if HasFlag n ChildDeleted s \<or> HasFlag n ChildrenDeleted s
               then DestroyDeleted (Suc g) s else Some s) = Some s1 \<and> shrinks s s1 \<and>
              (\<forall>k \<in> set (Dels s1). plain_tree d k s1)"
  proof (cases "HasFlag n ChildDeleted s \<or> HasFlag n ChildrenDeleted s")
    case True
    have "\<exists>s'. DestroyDeleted (Suc g) s = Some s' \<and> shrinks s s' \<and> Dels s' = []"
      by (rule DestroyDeleted_plain[where d = d], (rule T; assumption), rule q)
    then obtain s1 where
      "DestroyDeleted (Suc g) s = Some s1" "shrinks s s1" "Dels s1 = []"
      by blast
    then show ?thesis using True by simp
  next
    case False
    then show ?thesis using q by (simp add: shrinks_refl)
  qed
  then obtain s1 where
    1: "(if HasFlag n ChildDeleted s \<or> HasFlag n ChildrenDeleted s
         then DestroyDeleted (Suc g) s else Some s) = Some s1"
       "shrinks s s1" "\<forall>k \<in> set (Dels s1). plain_tree d k s1"
    by blast
  have ok1: "plain_tree (Suc d) n s1" using 1(2) ok by (rule plain_tree_shrinks)
  have "\<exists>s2. (if OnlySelfUpdate' n s1 then Some (ClearFlag n Updating s1)
               else (case FuncDownMeFirst (Suc g) UpdateEnd_fn n s1 of
                       None \<Rightarrow> None | Some (r, s2) \<Rightarrow> Some s2)) = Some s2 \<and>
              keeps_queue s1 s2"
  proof (cases "OnlySelfUpdate' n s1")
    case True
    then show ?thesis by (simp add: keeps_ClearFlag)
  next
    case False
    have "Suc d \<le> Suc g" using le by simp
    from plain_walk_keeps[of UpdateEnd_fn, OF UpdateEnd_fn_keeps ok1 this]
    show ?thesis using False by auto
  qed
  then obtain s2 where
    2: "(if OnlySelfUpdate' n s1 then Some (ClearFlag n Updating s1)
         else (case FuncDownMeFirst (Suc g) UpdateEnd_fn n s1 of
                 None \<Rightarrow> None | Some (r, s2) \<Rightarrow> Some s2)) = Some s2"
       "keeps_queue s1 s2"
    by blast
  let ?s3 = "Emit n (This n s2) NodeSignalUpdated (Some (Flags n s2)) s2"
  have u: "UpdateEnd (Suc (Suc g)) n updt s = Some ?s3"
    using False 1(1) 2(1) by (auto simp: Let_def split: if_splits option.splits)
  have k3: "keeps_queue s1 ?s3" using 2(2) keeps_Emit by (rule keeps_queue_trans)
  have "shrinks s ?s3" using 1(2) keeps_shrinks[OF k3] by (rule shrinks_trans)
  moreover have "\<forall>k \<in> set (Dels ?s3). plain_tree d k ?s3"
    using 1(3) k3 by (auto simp: keeps_Dels[OF k3] intro: plain_tree_keeps)
  ultimately show ?thesis using u by blast
qed

lemma DeleteChildren_plain:
  assumes T: "\<And>n (s :: 'v state). plain_tree d n s \<Longrightarrow> Dels s = [] \<Longrightarrow>
                \<exists>s'. Destroy g n s = Some s' \<and> shrinks s s' \<and> Dels s' = []"
    and ok: "plain_tree (Suc d) n (s :: 'v state)" and le: "d \<le> g" and dels: "Dels s = []"
  shows "\<exists>s'. DeleteChildren (Suc (Suc (Suc g))) n destroy s = Some s' \<and> shrinks s s' \<and>
              (\<forall>k \<in> set (Dels s'). plain_tree d k s')"
proof -
  have le2: "Suc d \<le> Suc (Suc g)" "d \<le> Suc (Suc g)" using le by simp_all
  from UpdateStart_plain[OF ok le2(1)] obtain updt s1 where
    1: "UpdateStart (Suc (Suc g)) n s = Some (updt, s1)" "keeps_queue s s1"
    by blast
  let ?s2 = "SetFlag n ChildrenDeleted s1"
  have k2: "keeps_queue s ?s2" using 1(2) keeps_SetFlag by (rule keeps_queue_trans)
  have ok2: "plain_tree (Suc d) n ?s2" using k2 ok by (rule plain_tree_keeps)
  then have "\<forall>c \<in> set (Kids (heap ?s2 n)). plain_tree d c ?s2" by simp
  from DeleteChildren_loop_plain[OF this le2(2)] obtain s3 where
    3: "DeleteChildren_loop (Suc (Suc g)) (Kids (heap ?s2 n)) ?s2 = Some s3"
       "keeps_queue ?s2 s3"
    by blast
  have k3: "keeps_queue s s3" using k2 3(2) by (rule keeps_queue_trans)
  have ok3: "plain_tree (Suc d) n s3" using k3 ok by (rule plain_tree_keeps)
  have d3: "Dels s3 = []" using keeps_Dels[OF k3] dels by simp
  let ?s4 = "if destroy then s3\<lparr>Dels := Dels s3 @ Kids (heap s3 n)\<rparr> else s3"
  let ?s5 = "upd n (\<lambda>nd. nd\<lparr>Kids := []\<rparr>) ?s4"
  have sh4: "shrinks s3 ?s4" by (simp add: shrinks_def)
  have q4: "\<forall>k \<in> set (Dels ?s4). plain_tree d k ?s4"
    using ok3 d3 sh4 by (auto intro: plain_tree_shrinks)
  have k5: "keeps_queue ?s4 ?s5" by (rule shrinks_upd) simp_all
  have sh5: "shrinks s ?s5"
    using keeps_shrinks[OF k3] sh4 keeps_shrinks[OF k5] by (blast intro: shrinks_trans)
  have ok5: "plain_tree (Suc d) n ?s5" using sh5 ok by (rule plain_tree_shrinks)
  have q5: "\<forall>k \<in> set (Dels ?s5). plain_tree d k ?s5"
    using q4 k5 by (auto simp: keeps_Dels[OF k5] intro: plain_tree_keeps)
  have "\<exists>s'. UpdateEnd (Suc (Suc g)) n updt ?s5 = Some s' \<and> shrinks ?s5 s' \<and>
              (\<forall>k \<in> set (Dels s'). plain_tree d k s')"
    by (rule UpdateEnd_plain[where d = d], (rule T; assumption), rule ok5, rule le, rule q5)
  then obtain s6 where
    6: "UpdateEnd (Suc (Suc g)) n updt ?s5 = Some s6" "shrinks ?s5 s6"
       "\<forall>k \<in> set (Dels s6). plain_tree d k s6"
    by blast
  have "shrinks s s6" using sh5 6(2) by (rule shrinks_trans)
  moreover have "DeleteChildren (Suc (Suc (Suc g))) n destroy s = Some s6"
    using 1(1) 3(1) 6(1) by (simp add: Let_def)
  ultimately show ?thesis using 6(3) by blast
qed

lemma Destroy_plain:
  "plain_tree d n (s :: 'v state) \<Longrightarrow> Dels s = [] \<Longrightarrow> 4 * d \<le> fuel \<Longrightarrow>
   \<exists>s'. Destroy fuel n s = Some s' \<and> shrinks s s' \<and> Dels s' = []"
proof (induction d arbitrary: fuel n s)
  case 0
  then show ?case by simp
next
  case (Suc d)
  from Suc.prems(3) obtain g where g: "fuel = Suc (Suc (Suc (Suc g)))" "4 * d \<le> g"
    by (cases fuel; cases "fuel - 1"; cases "fuel - 2"; cases "fuel - 3") auto
  then have le: "d \<le> g" by simp
  have T: "\<exists>s'. Destroy g k s0 = Some s' \<and> shrinks s0 s' \<and> Dels s' = []"
    if "plain_tree d k s0" "Dels s0 = []" for k and s0 :: "'v state"
    using that g(2) by (rule Suc.IH)
  have T2: "\<exists>s'. Destroy (Suc (Suc g)) k s0 = Some s' \<and> shrinks s0 s' \<and> Dels s' = []"
    if "plain_tree d k s0" "Dels s0 = []" for k and s0 :: "'v state"
    using that by (rule Suc.IH) (use g(2) in simp)
  show ?case
  proof (cases "This n s")
    case None
    then show ?thesis using Suc.prems(2) by (simp add: g shrinks_refl)
  next
    case (Some t)
    let ?s1 = "Emit n (Some t) NodeSignalDestroying None s"
    have k1: "keeps_queue s ?s1" by (rule keeps_Emit)
    have ok1: "plain_tree (Suc d) n ?s1" using k1 Suc.prems(1) by (rule plain_tree_keeps)
    have "Suc d \<le> Suc (Suc (Suc g))" using le by simp
    from DisconnectAll_plain[OF ok1 this] obtain s2 where
      2: "DisconnectAll (Suc (Suc (Suc g))) n ?s1 = Some s2" "keeps_queue ?s1 s2"
      by blast
    have k2: "keeps_queue s s2" using k1 2(2) by (rule keeps_queue_trans)
    have ok2: "plain_tree (Suc d) n s2" using k2 Suc.prems(1) by (rule plain_tree_keeps)
    have d2: "Dels s2 = []" using keeps_Dels[OF k2] Suc.prems(2) by simp
    have "\<exists>s'. DeleteChildren (Suc (Suc (Suc g))) n True s2 = Some s' \<and> shrinks s2 s' \<and>
                (\<forall>k \<in> set (Dels s'). plain_tree d k s')"
      by (rule DeleteChildren_plain[where d = d], (rule T; assumption), rule ok2, rule le,
          rule d2)
    then obtain s3 where
      3: "DeleteChildren (Suc (Suc (Suc g))) n True s2 = Some s3" "shrinks s2 s3"
         "\<forall>k \<in> set (Dels s3). plain_tree d k s3"
      by blast
    have ok3: "plain_tree (Suc d) n s3" using 3(2) ok2 by (rule plain_tree_shrinks)
    have flds: "(case This n s3 of None \<Rightarrow> Some s3
                 | Some t3 \<Rightarrow> Destroy_fields (Suc (Suc (Suc g))) (KiFlds (heap s3 t3)) s3)
                = Some s3"
    proof (cases "This n s3")
      case None
      then show ?thesis by simp
    next
      case (Some t3)
      from plain_This[OF ok3 Some] have "t3 = n" .
      then show ?thesis using Some ok3 by simp
    qed
    have "\<exists>s'. DestroyDeleted (Suc (Suc (Suc g))) s3 = Some s' \<and> shrinks s3 s' \<and> Dels s' = []"
      by (rule DestroyDeleted_plain[where d = d], (rule T2; assumption), rule 3(3))
    then obtain s5 where
      5: "DestroyDeleted (Suc (Suc (Suc g))) s3 = Some s5" "shrinks s3 s5" "Dels s5 = []"
      by blast
    let ?s6 = "upd n (\<lambda>nd. nd\<lparr>Ths := None\<rparr>) (SetFlag n NodeDestroyed s5)"
    have k6: "keeps_queue s5 ?s6"
      by (rule keeps_queue_trans[OF keeps_SetFlag]) (rule shrinks_upd, simp_all)
    have "shrinks s ?s6"
      using keeps_shrinks[OF k2] 3(2) 5(2) keeps_shrinks[OF k6] by (blast intro: shrinks_trans)
    moreover have "Dels ?s6 = []" using keeps_Dels[OF k6] 5(3) by simp
    moreover have "Destroy fuel n s = Some ?s6"
      unfolding g Destroy.simps using Some 2(1) 3(1) flds 5(1) by simp
    ultimately show ?thesis by blast
  qed
qed

lemma Destroy_dead: "This n s = None \<Longrightarrow> Destroy (Suc fuel) n s = Some s"
  by simp

lemma Destroy_result:
  assumes "Destroy fuel n s = Some s1"
  shows "This n s1 = None"
    and "This n s \<noteq> None \<Longrightarrow> IsDestroyed n s1 \<and> Ths (heap s1 n) = None"
proof -
  from assms obtain f where f: "fuel = Suc f" by (cases fuel) auto
  show "This n s1 = None"
    using assms unfolding f
    by (auto simp: This_def IsDestroyed_def HasFlag_def SetFlag_def upd_def
        split: option.splits if_splits)
  show "IsDestroyed n s1 \<and> Ths (heap s1 n) = None" if "This n s \<noteq> None"
    using assms that unfolding f
    by (auto simp: IsDestroyed_def HasFlag_def SetFlag_def upd_def split: option.splits)
qed

lemma Destroy_twice:
  "Destroy_all (Suc fuel) [n, n] s = Destroy_all (Suc fuel) [n] s"
proof (cases "Destroy (Suc fuel) n s")
  case None
  then show ?thesis by simp
next
  case (Some s1)
  from Destroy_result(1)[OF Some] have "This n s1 = None" .
  then have "Destroy (Suc fuel) n s1 = Some s1" by (rule Destroy_dead)
  then show ?thesis using Some by simp
qed

text \<open>
  Claim C10. \<^verbatim>\<open>Destroy\<close> returns on every finite tree of plain nodes when the queue of the
  deletion manager is empty. When it returns on a node that has its self-handle, the node
  is flagged \<^verbatim>\<open>NodeDestroyed\<close>, its self-handle is nil and \<^verbatim>\<open>This\<close> yields nil. On a node
  for which \<^verbatim>\<open>This\<close> yields nil, \<^verbatim>\<open>Destroy\<close> returns the state as it is: nothing is
  emitted and no child is touched. Hence destroying a queue that holds a node twice does
  what destroying it once does.
\<close>

theorem Destroy_idempotent:
  "(plain_tree d n s \<and> Dels s = [] \<and> 4 * d \<le> fuel \<longrightarrow> (\<exists>r. Destroy fuel n s = Some r)) \<and>
   (Destroy fuel n s = Some r \<and> This n s \<noteq> None \<longrightarrow>
      IsDestroyed n r \<and> Ths (heap r n) = None \<and> This n r = None) \<and>
   (This n t = None \<longrightarrow> Destroy (Suc f) n t = Some t) \<and>
   Destroy_all (Suc f) [n, n] s = Destroy_all (Suc f) [n] s"
  using Destroy_plain[of d n s fuel] Destroy_result[of fuel n s r] Destroy_dead[of n t f]
    Destroy_twice[of f n s]
  by blast

text \<open>The theorem at the root of \<open>tree2\<close>.\<close>

theorem Destroy_idempotent_witness:
  "plain_tree 2 0 tree2 \<and> Dels tree2 = [] \<and> This 0 tree2 \<noteq> None \<and>
   (\<exists>r. Destroy 8 0 tree2 = Some r \<and> IsDestroyed 0 r \<and> Ths (heap r 0) = None \<and>
      This 0 r = None \<and> Destroy 8 0 r = Some r \<and>
      Destroy_all 8 [0, 0] tree2 = Destroy_all 8 [0] tree2)"
proof -
  have h: "plain_tree 2 0 tree2" "Dels tree2 = []" "This 0 tree2 \<noteq> None" "4 * 2 \<le> (8::nat)"
    by (simp_all add: tree2_def eval_defs)
  from Destroy_idempotent[where d = 2 and n = 0 and s = tree2 and fuel = 8] h
  obtain r where 1: "Destroy 8 0 tree2 = Some r"
    by blast
  from Destroy_idempotent[where d = 2 and n = 0 and s = tree2 and fuel = 8 and r = r
      and t = r and f = 7] h 1
  have "IsDestroyed 0 r \<and> Ths (heap r 0) = None \<and> This 0 r = None \<and>
        Destroy 8 0 r = Some r \<and> Destroy_all 8 [0, 0] tree2 = Destroy_all 8 [0] tree2"
    by simp
  then show ?thesis using h 1 by blast
qed

end
